theory Spec2Isabelle
  imports Main "HOL-Library.Sublist"
begin

section \<open>Text and character classes\<close>

text \<open>
  The scripts work on Python \<open>str\<close> values.  A text is modelled as a \<open>string\<close>, one
  \<open>char\<close> per code point, which covers the code points 0 to 255.  The classes \<open>\w\<close> and
  \<open>\s\<close> of Python's \<open>re\<close> module (Unicode mode) and the whitespace of \<open>str.strip\<close> are
  written out for that range.
\<close>

definition nl :: char where
  "nl = CHR ''\<newline>''"

definition is_word :: "char \<Rightarrow> bool" where
  "is_word c =
     (let n = (of_char c :: nat)
      in (48 \<le> n \<and> n \<le> 57) \<or> (65 \<le> n \<and> n \<le> 90) \<or> n = 95 \<or> (97 \<le> n \<and> n \<le> 122)
         \<or> n = 170 \<or> n = 178 \<or> n = 179 \<or> n = 181 \<or> n = 185 \<or> n = 186
         \<or> (188 \<le> n \<and> n \<le> 190) \<or> (192 \<le> n \<and> n \<le> 214) \<or> (216 \<le> n \<and> n \<le> 246)
         \<or> 248 \<le> n)"

definition is_space :: "char \<Rightarrow> bool" where
  "is_space c =
     (let n = (of_char c :: nat)
      in (9 \<le> n \<and> n \<le> 13) \<or> (28 \<le> n \<and> n \<le> 32) \<or> n = 133 \<or> n = 160)"

text \<open>\<open>s.strip()\<close>: leading and trailing whitespace removed.\<close>

definition strip :: "string \<Rightarrow> string" where
  "strip s = rev (dropWhile is_space (rev (dropWhile is_space s)))"

text \<open>\<open>s.split(c)\<close> with an explicit one-character separator: always at least one piece.\<close>

fun split :: "char \<Rightarrow> string \<Rightarrow> string list" where
  "split c [] = [[]]"
| "split c (x # xs) =
     (if x = c then [] # split c xs
      else (case split c xs of [] \<Rightarrow> [[x]] | p # ps \<Rightarrow> (x # p) # ps))"

text \<open>\<open>sep.join(xs)\<close>.\<close>

fun join :: "string \<Rightarrow> string list \<Rightarrow> string" where
  "join sep [] = []"
| "join sep [x] = x"
| "join sep (x # y # ys) = x @ sep @ join sep (y # ys)"


section \<open>The regular expressions of the scripts\<close>

text \<open>
  The patterns of \<open>create_consolidated_migration.py\<close> are sequences of literals, greedy
  repetitions of a character class (\<open>\w+\<close>, \<open>\s+\<close>, \<open>[^)]+\<close>, \<open>[^)]*\<close>, \<open>[^;]+\<close>), capturing
  groups around one repetition, and one optional non-capturing group.  They are kept as
  data and run by a backtracking matcher that lists the ways to match in the order in which
  Python's engine tries them: a greedy repetition longest first, an optional group present
  first.  The engine returns the first way that succeeds.
\<close>

datatype cls = Word | Space | NotChar char

fun in_cls :: "cls \<Rightarrow> char \<Rightarrow> bool" where
  "in_cls Word c = is_word c"
| "in_cls Space c = is_space c"
| "in_cls (NotChar x) c = (c \<noteq> x)"

datatype atom = Lit string | Rep cls nat
  \<comment> \<open>\<open>Rep c n\<close>: at least \<open>n\<close> characters of class \<open>c\<close>, greedy, unbounded\<close>

datatype item = Plain atom | Group atom | Optional "atom list"
  \<comment> \<open>\<open>Group a\<close> is \<open>(a)\<close>; \<open>Optional as\<close> is \<open>(?:as)?\<close>\<close>

type_synonym regex = "item list"

text \<open>All ways to take a run of characters of a class: (taken, rest), longest first.\<close>

fun spans :: "(char \<Rightarrow> bool) \<Rightarrow> string \<Rightarrow> (string \<times> string) list" where
  "spans P [] = [([], [])]"
| "spans P (c # cs) =
     (if P c then map (\<lambda>(u, r). (c # u, r)) (spans P cs) else []) @ [([], c # cs)]"

fun atom_ms :: "atom \<Rightarrow> string \<Rightarrow> (string \<times> string) list" where
  "atom_ms (Lit l) s = (if prefix l s then [(l, drop (length l) s)] else [])"
| "atom_ms (Rep c n) s = filter (\<lambda>(u, r). n \<le> length u) (spans (in_cls c) s)"

fun atoms_ms :: "atom list \<Rightarrow> string \<Rightarrow> (string \<times> string) list" where
  "atoms_ms [] s = [([], s)]"
| "atoms_ms (a # as) s =
     concat (map (\<lambda>(u, r). map (\<lambda>(v, r'). (u @ v, r')) (atoms_ms as r)) (atom_ms a s))"

text \<open>All ways to match a pattern at the start of a text: (captured groups, rest).\<close>

fun ms :: "regex \<Rightarrow> string \<Rightarrow> (string list \<times> string) list" where
  "ms [] s = [([], s)]"
| "ms (Plain a # q) s = concat (map (\<lambda>(u, r). ms q r) (atom_ms a s))"
| "ms (Group a # q) s =
     concat (map (\<lambda>(u, r). map (\<lambda>(g, r'). (u # g, r')) (ms q r)) (atom_ms a s))"
| "ms (Optional as # q) s = concat (map (\<lambda>(u, r). ms q r) (atoms_ms as s)) @ ms q s"

definition match_at :: "regex \<Rightarrow> string \<Rightarrow> (string list \<times> string) option" where
  "match_at q s = (case ms q s of [] \<Rightarrow> None | m # _ \<Rightarrow> Some m)"

text \<open>
  \<open>re.finditer\<close>: the non-overlapping matches from left to right, each with its start
  offset and its groups.  After a match the search goes on where the match ended; a match
  of the empty text is reported and the search moves one character on (no pattern of the
  script matches the empty text).
\<close>

function finditer_from :: "regex \<Rightarrow> nat \<Rightarrow> string \<Rightarrow> (nat \<times> string list) list" where
  "finditer_from q k s =
     (case match_at q s of
        Some (g, r) \<Rightarrow>
          if length r < length s then (k, g) # finditer_from q (k + (length s - length r)) r
          else if s = [] then [(k, g)]
          else (k, g) # finditer_from q (Suc k) (tl s)
      | None \<Rightarrow> (if s = [] then [] else finditer_from q (Suc k) (tl s)))"
  by pat_completeness auto
termination
  by (relation "measure (\<lambda>(q, k, s). length s)") auto

declare finditer_from.simps [simp del]

definition finditer :: "regex \<Rightarrow> string \<Rightarrow> (nat \<times> string list) list" where
  "finditer q s = finditer_from q 0 s"

text \<open>\<open>re.findall\<close> for a pattern with exactly one group: the list of that group's texts.\<close>

definition findall :: "regex \<Rightarrow> string \<Rightarrow> string list" where
  "findall q s = map (\<lambda>(k, g). g ! 0) (finditer q s)"

datatype error = IndexError

text \<open>\<open>match.group(n)\<close> for \<open>n \<ge> 1\<close>: raises \<open>IndexError\<close> when the pattern has no group \<open>n\<close>.\<close>

definition group :: "nat \<times> string list \<Rightarrow> nat \<Rightarrow> error + string" where
  "group m n = (if 1 \<le> n \<and> n \<le> length (snd m) then Inr (snd m ! (n - 1)) else Inl IndexError)"

definition extension_pattern :: regex where
  "extension_pattern =
     [Plain (Lit ''CREATE EXTENSION IF NOT EXISTS ''), Group (Rep Word 1),
      Plain (Lit '' WITH SCHEMA public;'')]"

definition type_pattern :: regex where
  "type_pattern =
     [Plain (Lit ''CREATE TYPE public.''), Group (Rep Word 1), Plain (Lit '' AS ENUM (''),
      Group (Rep (NotChar CHR '')'') 1), Plain (Lit '');'')]"

definition table_pattern :: regex where
  "table_pattern =
     [Plain (Lit ''CREATE TABLE public.''), Group (Rep Word 1), Plain (Lit '' (''),
      Group (Rep (NotChar CHR '';'') 1), Plain (Lit '');'')]"

definition index_pattern :: regex where
  "index_pattern =
     [Plain (Lit ''CREATE INDEX ''), Group (Rep Word 1), Plain (Lit '' ON public.''),
      Group (Rep Word 1), Plain (Lit '' USING ''), Group (Rep Word 1), Plain (Lit '' (''),
      Group (Rep (NotChar CHR '')'') 1), Plain (Lit '')''),
      Optional [Lit '' WHERE ('', Rep (NotChar CHR '')'') 1, Lit '')''],
      Plain (Lit '';'')]"

definition constraint_pattern :: regex where
  "constraint_pattern =
     [Plain (Lit ''ALTER TABLE ONLY public.''), Group (Rep Word 1), Plain (Rep Space 1),
      Plain (Lit ''ADD CONSTRAINT ''), Group (Rep Word 1), Plain (Lit '' ''),
      Group (Rep (NotChar CHR '';'') 1), Plain (Lit '';'')]"

definition trigger_pattern :: regex where
  "trigger_pattern =
     [Plain (Lit ''CREATE TRIGGER ''), Group (Rep Word 1), Plain (Lit '' ''),
      Group (Rep (NotChar CHR '';'') 1), Plain (Lit '';'')]"

definition function_pattern :: regex where
  "function_pattern =
     [Plain (Lit ''CREATE OR REPLACE FUNCTION public.''), Group (Rep Word 1),
      Plain (Lit ''(''), Plain (Rep (NotChar CHR '')'') 0), Plain (Lit '') RETURNS ''),
      Group (Rep (NotChar CHR '';'') 1), Plain (Lit '';'')]"


section \<open>\<open>extract_ddl_statements\<close>\<close>

text \<open>
  The dictionary \<open>statements\<close> has the seven literal keys of the source and is only ever
  read and written at those keys: a record with one field per key, each holding the list
  of strings or tuples the source builds.
\<close>

record statements =
  extensions :: "string list"
  types :: "(string \<times> string) list"
  tables :: "(string \<times> string) list"
  indexes :: "(string \<times> string \<times> string \<times> string \<times> string) list"
  constraints :: "(string \<times> string \<times> string) list"
  triggers :: "(string \<times> string) list"
  functions' :: "(string \<times> string) list"

definition bind :: "error + 'a \<Rightarrow> ('a \<Rightarrow> error + 'b) \<Rightarrow> error + 'b" where
  "bind x f = (case x of Inl e \<Rightarrow> Inl e | Inr v \<Rightarrow> f v)"

text \<open>A \<open>for\<close> loop over the matches whose body updates the dictionary or raises.\<close>

fun for_each ::
  "('s \<Rightarrow> 'a \<Rightarrow> error + 's) \<Rightarrow> 'a list \<Rightarrow> 's \<Rightarrow> error + 's" where
  "for_each body [] st = Inr st"
| "for_each body (x # xs) st = bind (body st x) (for_each body xs)"

definition type_body :: "statements \<Rightarrow> nat \<times> string list \<Rightarrow> error + statements" where
  "type_body st m =
     bind (group m 1) (\<lambda>type_name.
     bind (group m 2) (\<lambda>g2.
       let enum_values = strip g2
       in Inr (st\<lparr>types := types st @ [(type_name, enum_values)]\<rparr>)))"

definition diesel_table :: string where
  "diesel_table = ''__diesel_schema_migrations''"

definition table_body :: "statements \<Rightarrow> nat \<times> string list \<Rightarrow> error + statements" where
  "table_body st m =
     bind (group m 1) (\<lambda>table_name.
       if table_name \<noteq> diesel_table
       then bind (group m 2) (\<lambda>g2.
              let table_def = strip g2
              in Inr (st\<lparr>tables := tables st @ [(table_name, table_def)]\<rparr>))
       else Inr st)"

definition index_body :: "statements \<Rightarrow> nat \<times> string list \<Rightarrow> error + statements" where
  "index_body st m =
     bind (group m 1) (\<lambda>index_name.
     bind (group m 2) (\<lambda>table_name.
     bind (group m 3) (\<lambda>index_type.
     bind (group m 4) (\<lambda>columns.
     bind (group m 5) (\<lambda>c.
     bind (if c \<noteq> [] then group m 5 else Inr []) (\<lambda>where_clause.
       Inr (st\<lparr>indexes := indexes st @
              [(index_name, table_name, index_type, columns, where_clause)]\<rparr>)))))))"

definition constraint_body :: "statements \<Rightarrow> nat \<times> string list \<Rightarrow> error + statements" where
  "constraint_body st m =
     bind (group m 1) (\<lambda>table_name.
     bind (group m 2) (\<lambda>constraint_name.
     bind (group m 3) (\<lambda>constraint_def.
       Inr (st\<lparr>constraints := constraints st @
              [(table_name, constraint_name, constraint_def)]\<rparr>))))"

definition trigger_body :: "statements \<Rightarrow> nat \<times> string list \<Rightarrow> error + statements" where
  "trigger_body st m =
     bind (group m 1) (\<lambda>trigger_name.
     bind (group m 2) (\<lambda>trigger_def.
       Inr (st\<lparr>triggers := triggers st @ [(trigger_name, trigger_def)]\<rparr>)))"

definition function_body :: "statements \<Rightarrow> nat \<times> string list \<Rightarrow> error + statements" where
  "function_body st m =
     bind (group m 1) (\<lambda>func_name.
     bind (group m 2) (\<lambda>func_returns.
       Inr (st\<lparr>functions' := functions' st @ [(func_name, func_returns)]\<rparr>)))"

text \<open>
  \<open>extract_ddl_statements\<close>, from the text \<open>content\<close> that \<open>f.read()\<close> returned.  Reading
  the file is outside the model.
\<close>

definition extract_ddl_statements :: "string \<Rightarrow> error + statements" where
  "extract_ddl_statements content =
     (let st = \<lparr>extensions = [], types = [], tables = [], indexes = [], constraints = [],
                triggers = [], functions' = []\<rparr>;
          st = st\<lparr>extensions := findall extension_pattern content\<rparr>
      in bind (for_each type_body (finditer type_pattern content) st) (\<lambda>st.
         bind (for_each table_body (finditer table_pattern content) st) (\<lambda>st.
         bind (for_each index_body (finditer index_pattern content) st) (\<lambda>st.
         bind (for_each constraint_body (finditer constraint_pattern content) st) (\<lambda>st.
         bind (for_each trigger_body (finditer trigger_pattern content) st) (\<lambda>st.
         bind (for_each function_body (finditer function_pattern content) st) (\<lambda>st.
           Inr st)))))))"


section \<open>\<open>generate_consolidated_migration\<close>\<close>

text \<open>
  The list \<open>migration_sql\<close> is threaded through the sections of the function; every
  \<open>for\<close> loop that appends to it is a \<open>foldl\<close> over the collection it walks.
\<close>

definition add_header :: "string list \<Rightarrow> string list" where
  "add_header migration_sql =
     (let migration_sql = migration_sql @ [''-- Consolidated Initial Schema Migration''];
          migration_sql = migration_sql @
            [''-- This migration consolidates all previous migrations into a single migration''];
          migration_sql = migration_sql @ [''-- Generated from target schema dump'']
      in migration_sql @ [[]])"

definition add_extensions :: "statements \<Rightarrow> string list \<Rightarrow> string list" where
  "add_extensions st migration_sql =
     (if extensions st \<noteq> [] then
        let migration_sql = migration_sql @ [''-- Extensions''];
            migration_sql =
              foldl (\<lambda>migration_sql ext. migration_sql @
                       [''CREATE EXTENSION IF NOT EXISTS '' @ ext @ '' WITH SCHEMA public;''])
                migration_sql (extensions st)
        in migration_sql @ [[]]
      else migration_sql)"

text \<open>The inner loop of the types section: one entry per value of the split value list.\<close>

definition add_enum_values :: "string \<Rightarrow> string list \<Rightarrow> string list" where
  "add_enum_values enum_values migration_sql =
     (let values = map strip (split CHR '','' enum_values)
      in foldl (\<lambda>migration_sql (i, value).
                  if int i = int (length values) - 1
                  then migration_sql @ [''    '' @ value]
                  else migration_sql @ [''    '' @ value @ '',''])
           migration_sql (enumerate 0 values))"

definition add_types :: "statements \<Rightarrow> string list \<Rightarrow> string list" where
  "add_types st migration_sql =
     (if types st \<noteq> [] then
        let migration_sql = migration_sql @ [''-- Custom Types (ENUMs)''];
            migration_sql =
              foldl (\<lambda>migration_sql (type_name, enum_values).
                       let migration_sql = migration_sql @
                             [''CREATE TYPE public.'' @ type_name @ '' AS ENUM (''];
                           migration_sql = add_enum_values enum_values migration_sql
                       in migration_sql @ ['');''])
                migration_sql (types st)
        in migration_sql @ [[]]
      else migration_sql)"

definition add_tables :: "statements \<Rightarrow> string list \<Rightarrow> string list" where
  "add_tables st migration_sql =
     (if tables st \<noteq> [] then
        let migration_sql = migration_sql @ [''-- Tables''];
            migration_sql =
              foldl (\<lambda>migration_sql (table_name, table_def).
                       let migration_sql = migration_sql @
                             [''CREATE TABLE public.'' @ table_name @ '' (''];
                           lines = split nl (strip table_def);
                           migration_sql =
                             foldl (\<lambda>migration_sql line. migration_sql @ [''    '' @ strip line])
                               migration_sql lines
                       in migration_sql @ ['');''])
                migration_sql (tables st)
        in migration_sql @ [[]]
      else migration_sql)"

definition add_constraints :: "statements \<Rightarrow> string list \<Rightarrow> string list" where
  "add_constraints st migration_sql =
     (if constraints st \<noteq> [] then
        let migration_sql = migration_sql @ [''-- Constraints''];
            migration_sql =
              foldl (\<lambda>migration_sql (table_name, constraint_name, constraint_def).
                       let migration_sql = migration_sql @
                             [''ALTER TABLE ONLY public.'' @ table_name]
                       in migration_sql @
                            [''    ADD CONSTRAINT '' @ constraint_name @ '' '' @ constraint_def
                               @ '';''])
                migration_sql (constraints st)
        in migration_sql @ [[]]
      else migration_sql)"

definition add_indexes :: "statements \<Rightarrow> string list \<Rightarrow> string list" where
  "add_indexes st migration_sql =
     (if indexes st \<noteq> [] then
        let migration_sql = migration_sql @ [''-- Indexes''];
            migration_sql =
              foldl (\<lambda>migration_sql (index_name, table_name, index_type, columns, where_clause).
                       let where_part =
                             (if where_clause \<noteq> [] then '' WHERE '' @ where_clause else [])
                       in migration_sql @
                            [''CREATE INDEX '' @ index_name @ '' ON public.'' @ table_name
                               @ '' USING '' @ index_type @ '' ('' @ columns @ '')'' @ where_part
                               @ '';''])
                migration_sql (indexes st)
        in migration_sql @ [[]]
      else migration_sql)"

definition add_triggers :: "statements \<Rightarrow> string list \<Rightarrow> string list" where
  "add_triggers st migration_sql =
     (if triggers st \<noteq> [] then
        let migration_sql = migration_sql @ [''-- Triggers''];
            migration_sql =
              foldl (\<lambda>migration_sql (trigger_name, trigger_def). migration_sql @
                       [''CREATE TRIGGER '' @ trigger_name @ '' '' @ trigger_def @ '';''])
                migration_sql (triggers st)
        in migration_sql @ [[]]
      else migration_sql)"

text \<open>The list \<open>migration_sql\<close> as it stands at the \<open>return\<close>.\<close>

definition migration_sql :: "statements \<Rightarrow> string list" where
  "migration_sql st =
     (let sql = [];
          sql = add_header sql;
          sql = add_extensions st sql;
          sql = add_types st sql;
          sql = add_tables st sql;
          sql = add_constraints st sql;
          sql = add_indexes st sql;
          sql = add_triggers st sql
      in sql)"

definition generate_consolidated_migration :: "statements \<Rightarrow> string" where
  "generate_consolidated_migration st = join [nl] (migration_sql st)"


section \<open>\<open>check_migration_order.py\<close>\<close>

text \<open>
  A migration is the tuple (timestamp, name, path) that \<open>get_migration_files\<close> builds.
  The checks compare timestamps and format them, so any linearly ordered type stands for
  \<open>datetime\<close>, with the formatting a function to text.  Of the printed lines, those of the naming check are kept, as values of
  a datatype.
\<close>

datatype printed =
    Checking_naming
  | Warn_convention string
  | Warn_expected
  | Warn_path string
  | Error_too_short string
  | Error_path string

definition is_lower :: "char \<Rightarrow> bool" where
  "is_lower c = (let n = (of_char c :: nat) in 97 \<le> n \<and> n \<le> 122)"

definition is_digit :: "char \<Rightarrow> bool" where
  "is_digit c = (let n = (of_char c :: nat) in 48 \<le> n \<and> n \<le> 57)"

text \<open>
  \<open>re.match(r'^[a-z][a-z0-9_]*[a-z0-9]$', name)\<close>.  The pattern spans the whole name,
  or the whole name but a final newline, which \<open>$\<close> allows.
\<close>

definition convention_body :: "string \<Rightarrow> bool" where
  "convention_body s =
     (2 \<le> length s \<and> is_lower (hd s)
      \<and> list_all (\<lambda>c. is_lower c \<or> is_digit c \<or> c = CHR ''_'') (butlast (tl s))
      \<and> (is_lower (last s) \<or> is_digit (last s)))"

definition matches_convention :: "string \<Rightarrow> bool" where
  "matches_convention name =
     (convention_body name \<or> (name \<noteq> [] \<and> last name = nl \<and> convention_body (butlast name)))"

definition check_migration_order :: "('t::linorder \<times> string \<times> string) list \<Rightarrow> bool" where
  "check_migration_order migrations =
     (if length migrations \<le> 1 then True
      else
        let issues_found =
              foldl (\<lambda>issues_found i.
                       let prev_timestamp = fst (migrations ! (i - 1));
                           curr_timestamp = fst (migrations ! i)
                       in if curr_timestamp \<le> prev_timestamp then True else issues_found)
                False [1 ..< length migrations]
        in \<not> issues_found)"

text \<open>
  The dictionary \<open>timestamp_counts\<close> is keyed by the text
  \<open>timestamp.strftime('%Y-%m-%d %H:%M:%S')\<close>; the function \<open>strftime\<close> stands for that
  formatting.  The dictionary is a list of (key, entries) in insertion order.
\<close>

definition check_for_duplicate_timestamps ::
  "('t \<Rightarrow> string) \<Rightarrow> ('t \<times> string \<times> string) list \<Rightarrow> bool" where
  "check_for_duplicate_timestamps strftime migrations =
     (let timestamp_counts =
            foldl (\<lambda>d (timestamp, name, path).
                     let timestamp_str = strftime timestamp;
                         d = (if map_of d timestamp_str = None then d @ [(timestamp_str, [])]
                              else d)
                     in map (\<lambda>(k, v). if k = timestamp_str then (k, v @ [(name, path)])
                                      else (k, v)) d)
              [] migrations;
          issues_found =
            foldl (\<lambda>issues_found (timestamp_str, migrations_list).
                     if length migrations_list > 1 then True else issues_found)
              False timestamp_counts
      in \<not> issues_found)"

text \<open>The naming check: the lines it prints and the value it returns.\<close>

definition naming_step ::
  "printed list \<times> bool \<Rightarrow> 't \<times> string \<times> string \<Rightarrow> printed list \<times> bool" where
  "naming_step s m =
     (case (s, m) of ((out, issues_found), (timestamp, name, path)) \<Rightarrow>
        let out = (if \<not> matches_convention name
                   then out @ [Warn_convention name, Warn_expected, Warn_path path]
                   else out)
        in if length name < 3
           then (out @ [Error_too_short name, Error_path path], True)
           else (out, issues_found))"

definition check_migration_naming_conventions ::
  "('t \<times> string \<times> string) list \<Rightarrow> printed list \<times> bool" where
  "check_migration_naming_conventions migrations =
     (let (out, issues_found) = foldl naming_step ([Checking_naming], False) migrations
      in (out, \<not> issues_found))"

text \<open>
  \<open>main\<close>, from the list \<open>migrations\<close> that \<open>get_migration_files\<close> returned (reading the
  directory is outside the model); the value is the exit status.
\<close>

definition main :: "('t::linorder \<Rightarrow> string) \<Rightarrow> ('t \<times> string \<times> string) list \<Rightarrow> int" where
  "main strftime migrations =
     (if migrations = [] then 1
      else
        let all_checks_passed = True;
            all_checks_passed =
              (if \<not> check_migration_order migrations then False else all_checks_passed);
            all_checks_passed =
              (if \<not> check_for_duplicate_timestamps strftime migrations then False
               else all_checks_passed);
            all_checks_passed =
              (if \<not> snd (check_migration_naming_conventions migrations) then False
               else all_checks_passed)
        in if all_checks_passed then 0 else 1)"


section \<open>Notions used to state the properties\<close>

text \<open>The number of capturing groups of a pattern.\<close>

fun ngroups :: "regex \<Rightarrow> nat" where
  "ngroups [] = 0"
| "ngroups (Group a # q) = Suc (ngroups q)"
| "ngroups (Plain a # q) = ngroups q"
| "ngroups (Optional as # q) = ngroups q"

text \<open>A pattern whose last item is a literal that ends with a semicolon.\<close>

fun ends_with_semicolon :: "regex \<Rightarrow> bool" where
  "ends_with_semicolon [] = False"
| "ends_with_semicolon [i] =
     (case i of Plain (Lit l) \<Rightarrow> l \<noteq> [] \<and> last l = CHR '';'' | _ \<Rightarrow> False)"
| "ends_with_semicolon (i # j # q) = ends_with_semicolon (j # q)"

text \<open>The entries that each section of the emitter appends, one notion per section.\<close>

definition header_block :: "string list" where
  "header_block =
     [''-- Consolidated Initial Schema Migration'',
      ''-- This migration consolidates all previous migrations into a single migration'',
      ''-- Generated from target schema dump'', []]"

definition extension_block :: "statements \<Rightarrow> string list" where
  "extension_block st =
     (if extensions st = [] then []
      else ''-- Extensions'' #
           map (\<lambda>ext. ''CREATE EXTENSION IF NOT EXISTS '' @ ext @ '' WITH SCHEMA public;'')
             (extensions st) @ [[]])"

definition type_entries :: "string \<times> string \<Rightarrow> string list" where
  "type_entries t =
     (''CREATE TYPE public.'' @ fst t @ '' AS ENUM ('') # add_enum_values (snd t) [] @ ['');'']"

definition type_block :: "statements \<Rightarrow> string list" where
  "type_block st =
     (if types st = [] then []
      else ''-- Custom Types (ENUMs)'' # concat (map type_entries (types st)) @ [[]])"

definition table_entries :: "string \<times> string \<Rightarrow> string list" where
  "table_entries t =
     (''CREATE TABLE public.'' @ fst t @ '' ('') #
     map (\<lambda>line. ''    '' @ strip line) (split nl (strip (snd t))) @ ['');'']"

definition table_block :: "statements \<Rightarrow> string list" where
  "table_block st =
     (if tables st = [] then []
      else ''-- Tables'' # concat (map table_entries (tables st)) @ [[]])"

definition constraint_entries :: "string \<times> string \<times> string \<Rightarrow> string list" where
  "constraint_entries c =
     (case c of (table_name, constraint_name, constraint_def) \<Rightarrow>
        [''ALTER TABLE ONLY public.'' @ table_name,
         ''    ADD CONSTRAINT '' @ constraint_name @ '' '' @ constraint_def @ '';''])"

definition constraint_block :: "statements \<Rightarrow> string list" where
  "constraint_block st =
     (if constraints st = [] then []
      else ''-- Constraints'' # concat (map constraint_entries (constraints st)) @ [[]])"

definition index_entry :: "string \<times> string \<times> string \<times> string \<times> string \<Rightarrow> string" where
  "index_entry i =
     (case i of (index_name, table_name, index_type, columns, where_clause) \<Rightarrow>
        ''CREATE INDEX '' @ index_name @ '' ON public.'' @ table_name @ '' USING '' @ index_type
        @ '' ('' @ columns @ '')''
        @ (if where_clause \<noteq> [] then '' WHERE '' @ where_clause else []) @ '';'')"

definition index_block :: "statements \<Rightarrow> string list" where
  "index_block st =
     (if indexes st = [] then []
      else ''-- Indexes'' # map index_entry (indexes st) @ [[]])"

definition trigger_block :: "statements \<Rightarrow> string list" where
  "trigger_block st =
     (if triggers st = [] then []
      else ''-- Triggers'' #
           map (\<lambda>(trigger_name, trigger_def).
                  ''CREATE TRIGGER '' @ trigger_name @ '' '' @ trigger_def @ '';'')
             (triggers st) @ [[]])"

text \<open>
  Where entry \<open>k\<close> of a list of entries starts in the text that joins them with newlines,
  and the number of the line on which a character offset of a text lies.
\<close>

definition entry_offset :: "string list \<Rightarrow> nat \<Rightarrow> nat" where
  "entry_offset L k = (\<Sum>e\<leftarrow>take k L. length e + 1)"

definition line_of :: "string \<Rightarrow> nat \<Rightarrow> nat" where
  "line_of text off = count_list (take off text) nl"


text \<open>
  Notions for the text that the emitter produces and for scanning it again: the groups of
  the matches of a pattern, stretches of text in which a pattern matches nowhere, names
  and raw texts free of the words \<open>CREATE\<close> and \<open>ALTER\<close> (every pattern of the extractor
  begins with one of them), and what the extractor guarantees of the names and raw texts
  it captures.
\<close>

text \<open>The groups of the matches of a pattern, in the order of the matches.\<close>

definition groups_of :: "regex \<Rightarrow> string \<Rightarrow> string list list" where
  "groups_of q s = map snd (finditer q s)"

text \<open>The pattern matches at no position inside \<open>w\<close>, whatever text \<open>rest\<close> follows.\<close>

definition silent :: "regex \<Rightarrow> string \<Rightarrow> string \<Rightarrow> bool" where
  "silent q w rest = (\<forall>v. suffix v w \<and> v \<noteq> [] \<longrightarrow> match_at q (v @ rest) = None)"

text \<open>A name or raw text in which neither \<open>CREATE\<close> nor \<open>ALTER\<close> occurs.\<close>

definition keyword_free :: "string \<Rightarrow> bool" where
  "keyword_free f = (\<not> sublist ''CREATE'' f \<and> \<not> sublist ''ALTER'' f)"

text \<open>No position inside \<open>w\<close> is the start of one of the two words.\<close>

definition quiet :: "string \<Rightarrow> string \<Rightarrow> bool" where
  "quiet w rest =
     (\<forall>v. suffix v w \<and> v \<noteq> [] \<longrightarrow>
          \<not> prefix ''CREATE'' (v @ rest) \<and> \<not> prefix ''ALTER'' (v @ rest))"

text \<open>A fixed piece of text in which no \<open>C\<close> is followed by \<open>R\<close>, no \<open>A\<close> by \<open>L\<close>, and that ends with neither.\<close>

fun calm :: "string \<Rightarrow> bool" where
  "calm [] = True"
| "calm [c] = (c \<noteq> CHR ''C'' \<and> c \<noteq> CHR ''A'')"
| "calm (c # d # w) =
     ((c = CHR ''C'' \<longrightarrow> d \<noteq> CHR ''R'') \<and> (c = CHR ''A'' \<longrightarrow> d \<noteq> CHR ''L'') \<and> calm (d # w))"

text \<open>A pattern that begins with a literal that begins with one of the two words.\<close>

definition keyword_pattern :: "regex \<Rightarrow> bool" where
  "keyword_pattern q =
     (\<exists>l q'. q = Plain (Lit l) # q' \<and> (prefix ''CREATE'' l \<or> prefix ''ALTER'' l))"

text \<open>What \<open>(\w+)\<close> captures: a non-empty run of word characters.\<close>

definition wordy :: "string \<Rightarrow> bool" where
  "wordy n = (n \<noteq> [] \<and> list_all is_word n)"

text \<open>The entries of a list, each followed by a newline.\<close>

definition lines_text :: "string list \<Rightarrow> string" where
  "lines_text L = concat (map (\<lambda>e. e @ [nl]) L)"

text \<open>
  What the extractor guarantees of the entries of each collection (from the character
  classes of the groups), together with freedom from the two words.
\<close>

definition ok_name :: "string \<Rightarrow> bool" where
  "ok_name n = (wordy n \<and> keyword_free n)"

definition ok_type :: "string \<times> string \<Rightarrow> bool" where
  "ok_type t = (ok_name (fst t) \<and> keyword_free (snd t) \<and> CHR '')'' \<notin> set (snd t))"

definition ok_table :: "string \<times> string \<Rightarrow> bool" where
  "ok_table t = (ok_name (fst t) \<and> keyword_free (snd t) \<and> CHR '';'' \<notin> set (snd t))"

definition ok_text :: "string \<Rightarrow> bool" where
  "ok_text d = (d \<noteq> [] \<and> CHR '';'' \<notin> set d \<and> keyword_free d)"

definition ok_constraint :: "string \<times> string \<times> string \<Rightarrow> bool" where
  "ok_constraint c = (ok_name (fst c) \<and> ok_name (fst (snd c)) \<and> ok_text (snd (snd c)))"

definition ok_trigger :: "string \<times> string \<Rightarrow> bool" where
  "ok_trigger t = (ok_name (fst t) \<and> ok_text (snd t))"

definition ok_statements :: "statements \<Rightarrow> bool" where
  "ok_statements st =
     (list_all ok_name (extensions st) \<and> list_all ok_type (types st)
      \<and> list_all ok_table (tables st) \<and> indexes st = []
      \<and> list_all ok_constraint (constraints st) \<and> list_all ok_trigger (triggers st))"

text \<open>No name and no raw text of the collections contains \<open>CREATE\<close> or \<open>ALTER\<close>.\<close>

definition clean :: "statements \<Rightarrow> bool" where
  "clean st =
     (list_all keyword_free (extensions st)
      \<and> list_all (\<lambda>(n, v). keyword_free n \<and> keyword_free v) (types st)
      \<and> list_all (\<lambda>(n, d). keyword_free n \<and> keyword_free d) (tables st)
      \<and> list_all (\<lambda>(t, n, d). keyword_free t \<and> keyword_free n \<and> keyword_free d) (constraints st)
      \<and> list_all (\<lambda>(n, d). keyword_free n \<and> keyword_free d) (triggers st))"

text \<open>The groups of a match fit the character classes of the groups of the pattern.\<close>

fun captures_ok :: "regex \<Rightarrow> string list \<Rightarrow> bool" where
  "captures_ok [] g = (g = [])"
| "captures_ok (Group (Rep c n) # q) g =
     (case g of [] \<Rightarrow> False
      | u # g' \<Rightarrow> list_all (in_cls c) u \<and> n \<le> length u \<and> captures_ok q g')"
| "captures_ok (Group (Lit l) # q) g =
     (case g of [] \<Rightarrow> False | u # g' \<Rightarrow> u = l \<and> captures_ok q g')"
| "captures_ok (Plain a # q) g = captures_ok q g"
| "captures_ok (Optional as # q) g = captures_ok q g"


section \<open>The matcher and the loops\<close>

lemma ms_ngroups: "(g, r) \<in> set (ms q s) \<Longrightarrow> length g = ngroups q"
proof (induction q arbitrary: s g r)
  case Nil
  then show ?case by simp
next
  case (Cons i q)
  show ?case
  proof (cases i)
    case (Plain a)
    with Cons.prems obtain r0 where "(g, r) \<in> set (ms q r0)" by auto
    with Cons.IH Plain show ?thesis by simp
  next
    case (Group a)
    with Cons.prems obtain u r0 g0 where "(g0, r) \<in> set (ms q r0)" and "g = u # g0" by auto
    with Cons.IH Group show ?thesis by simp
  next
    case (Optional as)
    with Cons.prems obtain r0 where "(g, r) \<in> set (ms q r0)" by auto
    with Cons.IH Optional show ?thesis by simp
  qed
qed

lemma match_at_ngroups: "match_at q s = Some (g, r) \<Longrightarrow> length g = ngroups q"
  by (auto simp: match_at_def split: list.splits intro: ms_ngroups [of g r q s])

lemma finditer_from_None:
  "match_at q s = None \<Longrightarrow>
   finditer_from q k s = (if s = [] then [] else finditer_from q (Suc k) (tl s))"
  by (subst finditer_from.simps) simp

lemma finditer_from_Some:
  "match_at q s = Some (g, r) \<Longrightarrow>
   finditer_from q k s =
     (if length r < length s then (k, g) # finditer_from q (k + (length s - length r)) r
      else if s = [] then [(k, g)]
      else (k, g) # finditer_from q (Suc k) (tl s))"
  by (subst finditer_from.simps) simp

lemma finditer_from_ngroups:
  "m \<in> set (finditer_from q k s) \<Longrightarrow> length (snd m) = ngroups q"
proof (induction q k s rule: finditer_from.induct)
  case (1 q k s)
  show ?case
  proof (cases "match_at q s")
    case None
    with "1.prems" "1.IH"(1) show ?thesis
      by (auto simp: finditer_from_None split: if_splits)
  next
    case (Some p)
    obtain g r where p: "p = (g, r)" by (cases p)
    have len: "length g = ngroups q" using Some p by (simp add: match_at_ngroups)
    from Some p have M: "match_at q s = Some (g, r)" by simp
    show ?thesis
      using "1.prems" "1.IH"(2) [OF M refl] "1.IH"(3) [OF M refl] len
      by (auto simp: finditer_from_Some [OF M] split: if_splits)
  qed
qed

lemma finditer_ngroups: "m \<in> set (finditer q s) \<Longrightarrow> length (snd m) = ngroups q"
  by (simp add: finditer_def finditer_from_ngroups)

text \<open>What a match leaves is a suffix of the text it was tried on.\<close>

lemma spans_split: "(u, r) \<in> set (spans P s) \<Longrightarrow> s = u @ r"
  by (induction s arbitrary: u) (auto split: if_splits)

lemma atom_ms_split: "(u, r) \<in> set (atom_ms a s) \<Longrightarrow> s = u @ r"
  by (cases a) (auto simp: prefix_def dest: spans_split split: if_splits)

lemma atoms_ms_split: "(u, r) \<in> set (atoms_ms as s) \<Longrightarrow> s = u @ r"
proof (induction as arbitrary: s u)
  case Nil
  then show ?case by simp
next
  case (Cons a as)
  then obtain u1 r1 v where "(u1, r1) \<in> set (atom_ms a s)" "(v, r) \<in> set (atoms_ms as r1)"
    "u = u1 @ v" by auto
  with Cons.IH [of v r1] show ?case by (auto dest: atom_ms_split)
qed

lemma ms_suffix: "(g, r) \<in> set (ms q s) \<Longrightarrow> suffix r s"
proof (induction q arbitrary: s g)
  case Nil
  then show ?case by simp
next
  case (Cons i q)
  show ?case
  proof (cases i)
    case (Plain a)
    with Cons.prems obtain u r0 where "(u, r0) \<in> set (atom_ms a s)" "(g, r) \<in> set (ms q r0)"
      by auto
    with Cons.IH [of g r0] show ?thesis
      by (auto dest!: atom_ms_split simp: suffix_def)
  next
    case (Group a)
    with Cons.prems obtain u r0 g0 where "(u, r0) \<in> set (atom_ms a s)"
      "(g0, r) \<in> set (ms q r0)" by auto
    with Cons.IH [of g0 r0] show ?thesis
      by (auto dest!: atom_ms_split simp: suffix_def)
  next
    case (Optional as)
    with Cons.prems consider
      u r0 where "(u, r0) \<in> set (atoms_ms as s)" "(g, r) \<in> set (ms q r0)"
      | "(g, r) \<in> set (ms q s)" by auto
    then show ?thesis
    proof cases
      case 1
      with Cons.IH [of g r0] show ?thesis
        by (auto dest!: atoms_ms_split simp: suffix_def)
    next
      case 2
      with Cons.IH show ?thesis by simp
    qed
  qed
qed

lemma match_at_suffix: "match_at q s = Some (g, r) \<Longrightarrow> suffix r s"
  by (auto simp: match_at_def split: list.splits intro: ms_suffix [of g r q s])

lemma suffix_eq_drop: "suffix r s \<Longrightarrow> r = drop (length s - length r) s"
  by (auto simp: suffix_def)

text \<open>The matches come in strictly increasing order of their offsets.\<close>

lemma finditer_from_bounds:
  "m \<in> set (finditer_from q k s) \<Longrightarrow> k \<le> fst m \<and> fst m \<le> k + length s"
proof (induction q k s rule: finditer_from.induct)
  case (1 q k s)
  have tl: "s \<noteq> [] \<Longrightarrow> Suc (length (tl s)) = length s" by (cases s) simp_all
  show ?case
  proof (cases "match_at q s")
    case None
    with "1.prems" have ne: "s \<noteq> []" and m: "m \<in> set (finditer_from q (Suc k) (tl s))"
      by (auto simp: finditer_from_None split: if_splits)
    from "1.IH"(1) [OF None ne m] tl [OF ne] show ?thesis by arith
  next
    case (Some p)
    obtain g r where p: "p = (g, r)" by (cases p)
    from Some p have M: "match_at q s = Some (g, r)" by simp
    from "1.prems" consider "m = (k, g)"
      | "length r < length s" "m \<in> set (finditer_from q (k + (length s - length r)) r)"
      | "\<not> length r < length s" "s \<noteq> []" "m \<in> set (finditer_from q (Suc k) (tl s))"
      by (auto simp: finditer_from_Some [OF M] split: if_splits)
    then show ?thesis
    proof cases
      case 1
      then show ?thesis by simp
    next
      case 2
      from "1.IH"(2) [OF M refl 2] 2(1) show ?thesis by arith
    next
      case 3
      from "1.IH"(3) [OF M refl 3] tl [OF 3(2)] show ?thesis by arith
    qed
  qed
qed

lemma finditer_from_sorted: "sorted_wrt (<) (map fst (finditer_from q k s))"
proof (induction q k s rule: finditer_from.induct)
  case (1 q k s)
  show ?case
  proof (cases "match_at q s")
    case None
    with "1.IH"(1) show ?thesis
      by (auto simp: finditer_from_None)
  next
    case (Some p)
    obtain g r where p: "p = (g, r)" by (cases p)
    from Some p have M: "match_at q s = Some (g, r)" by simp
    show ?thesis
      using "1.IH"(2) [OF M refl] "1.IH"(3) [OF M refl]
      by (auto simp: finditer_from_Some [OF M] dest!: finditer_from_bounds)
  qed
qed

text \<open>Every reported match is a match of the pattern at its offset in the text.\<close>

lemma finditer_from_match:
  "m \<in> set (finditer_from q k s) \<Longrightarrow>
   \<exists>r. match_at q (drop (fst m - k) s) = Some (snd m, r)"
proof (induction q k s rule: finditer_from.induct)
  case (1 q k s)
  have step: "\<exists>r. match_at q (drop (fst m - k) s) = Some (snd m, r)"
    if ne: "s \<noteq> []" and m: "m \<in> set (finditer_from q (Suc k) (tl s))"
      and ih: "\<exists>r. match_at q (drop (fst m - Suc k) (tl s)) = Some (snd m, r)"
  proof -
    from finditer_from_bounds [OF m] have "fst m - k = Suc (fst m - Suc k)" by arith
    with ih ne show ?thesis by (cases s) simp_all
  qed
  show ?case
  proof (cases "match_at q s")
    case None
    with "1.prems" have ne: "s \<noteq> []" and m: "m \<in> set (finditer_from q (Suc k) (tl s))"
      by (auto simp: finditer_from_None split: if_splits)
    from step [OF ne m "1.IH"(1) [OF None ne m]] show ?thesis .
  next
    case (Some p)
    obtain g r where p: "p = (g, r)" by (cases p)
    from Some p have M: "match_at q s = Some (g, r)" by simp
    from "1.prems" consider "m = (k, g)"
      | "length r < length s" "m \<in> set (finditer_from q (k + (length s - length r)) r)"
      | "\<not> length r < length s" "s \<noteq> []" "m \<in> set (finditer_from q (Suc k) (tl s))"
      by (auto simp: finditer_from_Some [OF M] split: if_splits)
    then show ?thesis
    proof cases
      case 1
      with M show ?thesis by simp
    next
      case 2
      from "1.IH"(2) [OF M refl 2] obtain r' where
        r': "match_at q (drop (fst m - (k + (length s - length r))) r) = Some (snd m, r')" ..
      from finditer_from_bounds [OF 2(2)]
      have "fst m - k = (fst m - (k + (length s - length r))) + (length s - length r)"
        by arith
      moreover have "r = drop (length s - length r) s"
        using match_at_suffix [OF M] by (rule suffix_eq_drop)
      ultimately have "drop (fst m - k) s = drop (fst m - (k + (length s - length r))) r"
        by (metis drop_drop)
      with r' show ?thesis by auto
    next
      case 3
      from step [OF 3(2) 3(3) "1.IH"(3) [OF M refl 3]] show ?thesis .
    qed
  qed
qed

text \<open>The loops of the extractor, given the number of groups of the matches they walk.\<close>

lemma for_each_type_body:
  "\<forall>m\<in>set xs. length (snd m) = 2 \<Longrightarrow>
   for_each type_body xs st =
     Inr (st\<lparr>types := types st @ map (\<lambda>m. (snd m ! 0, strip (snd m ! 1))) xs\<rparr>)"
  by (induction xs arbitrary: st) (simp_all add: type_body_def group_def bind_def)

lemma for_each_table_body:
  "\<forall>m\<in>set xs. length (snd m) = 2 \<Longrightarrow>
   for_each table_body xs st =
     Inr (st\<lparr>tables := tables st @ map (\<lambda>m. (snd m ! 0, strip (snd m ! 1)))
                                       (filter (\<lambda>m. snd m ! 0 \<noteq> diesel_table) xs)\<rparr>)"
  by (induction xs arbitrary: st) (simp_all add: table_body_def group_def bind_def)

lemma for_each_index_body:
  "\<forall>m\<in>set xs. length (snd m) = 4 \<Longrightarrow>
   for_each index_body xs st = (if xs = [] then Inr st else Inl IndexError)"
  by (cases xs) (simp_all add: index_body_def group_def bind_def)

lemma for_each_constraint_body:
  "\<forall>m\<in>set xs. length (snd m) = 3 \<Longrightarrow>
   for_each constraint_body xs st =
     Inr (st\<lparr>constraints := constraints st @ map (\<lambda>m. (snd m ! 0, snd m ! 1, snd m ! 2)) xs\<rparr>)"
  by (induction xs arbitrary: st) (simp_all add: constraint_body_def group_def bind_def)

lemma for_each_trigger_body:
  "\<forall>m\<in>set xs. length (snd m) = 2 \<Longrightarrow>
   for_each trigger_body xs st =
     Inr (st\<lparr>triggers := triggers st @ map (\<lambda>m. (snd m ! 0, snd m ! 1)) xs\<rparr>)"
  by (induction xs arbitrary: st) (simp_all add: trigger_body_def group_def bind_def)

lemma for_each_function_body:
  "\<forall>m\<in>set xs. length (snd m) = 2 \<Longrightarrow>
   for_each function_body xs st =
     Inr (st\<lparr>functions' := functions' st @ map (\<lambda>m. (snd m ! 0, snd m ! 1)) xs\<rparr>)"
  by (induction xs arbitrary: st) (simp_all add: function_body_def group_def bind_def)

text \<open>
  The extractor raises exactly when the index pattern matches somewhere; otherwise it
  returns the matches of the other six patterns, field by field.
\<close>

lemma extract_ddl_statements_eq:
  "extract_ddl_statements content =
     (if finditer index_pattern content = []
      then Inr \<lparr>extensions = map (\<lambda>m. snd m ! 0) (finditer extension_pattern content),
                types = map (\<lambda>m. (snd m ! 0, strip (snd m ! 1))) (finditer type_pattern content),
                tables = map (\<lambda>m. (snd m ! 0, strip (snd m ! 1)))
                           (filter (\<lambda>m. snd m ! 0 \<noteq> diesel_table)
                              (finditer table_pattern content)),
                indexes = [],
                constraints = map (\<lambda>m. (snd m ! 0, snd m ! 1, snd m ! 2))
                                (finditer constraint_pattern content),
                triggers = map (\<lambda>m. (snd m ! 0, snd m ! 1)) (finditer trigger_pattern content),
                functions' = map (\<lambda>m. (snd m ! 0, snd m ! 1))
                               (finditer function_pattern content)\<rparr>
      else Inl IndexError)"
proof -
  have ty: "\<forall>m\<in>set (finditer type_pattern content). length (snd m) = 2"
    by (auto dest: finditer_ngroups simp: type_pattern_def)
  have ta: "\<forall>m\<in>set (finditer table_pattern content). length (snd m) = 2"
    by (auto dest: finditer_ngroups simp: table_pattern_def)
  have ix: "\<forall>m\<in>set (finditer index_pattern content). length (snd m) = 4"
    by (auto dest: finditer_ngroups simp: index_pattern_def)
  have co: "\<forall>m\<in>set (finditer constraint_pattern content). length (snd m) = 3"
    by (auto dest: finditer_ngroups simp: constraint_pattern_def)
  have tr: "\<forall>m\<in>set (finditer trigger_pattern content). length (snd m) = 2"
    by (auto dest: finditer_ngroups simp: trigger_pattern_def)
  have fu: "\<forall>m\<in>set (finditer function_pattern content). length (snd m) = 2"
    by (auto dest: finditer_ngroups simp: function_pattern_def)
  show ?thesis
    unfolding extract_ddl_statements_def Let_def
    by (simp add: for_each_type_body [OF ty] for_each_table_body [OF ta]
        for_each_index_body [OF ix] for_each_constraint_body [OF co]
        for_each_trigger_body [OF tr] for_each_function_body [OF fu] bind_def findall_def
        case_prod_unfold)
qed

section \<open>The emitter, section by section\<close>

lemma foldl_append_concat:
  "foldl (\<lambda>acc x. acc @ f x) acc xs = acc @ concat (map f xs)"
  by (induction xs arbitrary: acc) simp_all

lemma foldl_append_map:
  "foldl (\<lambda>acc x. acc @ [f x]) acc xs = acc @ map f xs"
  by (induction xs arbitrary: acc) simp_all

lemma split_not_Nil: "split c s \<noteq> []"
  by (induction s) (auto split: list.splits)

lemma enumerate_values_lines:
  "foldl (\<lambda>sql (i, v). if int i = int n - 1 then sql @ [f v] else sql @ [g v]) sql
     (enumerate k vs) =
   sql @ map (\<lambda>(i, v). if int i = int n - 1 then f v else g v) (enumerate k vs)"
  by (induction vs arbitrary: sql k) simp_all

lemma add_enum_values_append:
  "add_enum_values ev sql = sql @ add_enum_values ev []"
  unfolding add_enum_values_def Let_def
  by (simp add: enumerate_values_lines)

lemma add_extensions_eq: "add_extensions st sql = sql @ extension_block st"
  by (simp add: add_extensions_def extension_block_def Let_def foldl_append_map)

lemma add_types_eq: "add_types st sql = sql @ type_block st"
proof -
  have "(\<lambda>acc (t :: string \<times> string). acc @ [''CREATE TYPE public.'' @ fst t @ '' AS ENUM (''] @ add_enum_values (snd t) [] @ ['');''])
    = (\<lambda>acc t. acc @ type_entries t)"
    by (simp add: type_entries_def)
  then show ?thesis
  unfolding add_types_def type_block_def Let_def case_prod_unfold
  apply (subst add_enum_values_append)
  by (simp add: foldl_append_concat [where f = type_entries])
qed

lemma add_tables_eq: "add_tables st sql = sql @ table_block st"
proof -
  have "(\<lambda>acc (t :: string \<times> string). acc @ (''CREATE TABLE public.'' @ fst t @ '' ('') #
            map (\<lambda>line. ''    '' @ strip line) (split nl (strip (snd t))) @ ['');''])
    = (\<lambda>acc t. acc @ table_entries t)"
    by (simp add: table_entries_def)
  then show ?thesis
  unfolding add_tables_def table_block_def Let_def case_prod_unfold
  by (simp add: foldl_append_map foldl_append_concat [where f = table_entries])
qed

lemma add_constraints_eq: "add_constraints st sql = sql @ constraint_block st"
proof -
  have "(\<lambda>acc (c :: string \<times> string \<times> string). acc @
           [''ALTER TABLE ONLY public.'' @ fst c,
            ''    ADD CONSTRAINT '' @ fst (snd c) @ '' '' @ snd (snd c) @ '';''])
    = (\<lambda>acc c. acc @ constraint_entries c)"
    by (simp add: constraint_entries_def case_prod_unfold)
  then show ?thesis
  unfolding add_constraints_def constraint_block_def Let_def case_prod_unfold
  by (simp add: foldl_append_concat [where f = constraint_entries])
qed

lemma add_indexes_eq: "add_indexes st sql = sql @ index_block st"
  unfolding add_indexes_def index_block_def Let_def case_prod_unfold
  by (simp add: foldl_append_map index_entry_def case_prod_unfold)

lemma add_triggers_eq: "add_triggers st sql = sql @ trigger_block st"
  unfolding add_triggers_def trigger_block_def Let_def case_prod_unfold
  by (simp add: foldl_append_map)

lemma migration_sql_blocks:
  "migration_sql st =
     header_block @ extension_block st @ type_block st @ table_block st @ constraint_block st
     @ index_block st @ trigger_block st"
  by (simp add: migration_sql_def Let_def add_header_def header_block_def add_extensions_eq
      add_types_eq add_tables_eq add_constraints_eq add_indexes_eq add_triggers_eq)

lemma diesel_line_not_emitted:
  assumes "diesel_table \<notin> fst ` set (tables st)"
  shows "''CREATE TABLE public.__diesel_schema_migrations ('' \<notin> set (migration_sql st)"
proof -
  let ?d = "''CREATE TABLE public.__diesel_schema_migrations (''"
  have d: "?d = ''CREATE TABLE public.'' @ diesel_table @ '' (''"
    by (simp add: diesel_table_def)
  have 1: "?d \<notin> set header_block" by (simp add: header_block_def)
  have 2: "?d \<notin> set (extension_block st)" by (auto simp: extension_block_def)
  have 3: "?d \<notin> set (type_block st)"
    by (auto simp: type_block_def type_entries_def add_enum_values_def Let_def
        enumerate_values_lines split: if_splits)
  have 4: "?d \<notin> set (table_block st)"
  proof
    assume "?d \<in> set (table_block st)"
    then obtain t where t: "t \<in> set (tables st)" and "?d \<in> set (table_entries t)"
      by (auto simp: table_block_def split: if_splits)
    then have "?d = ''CREATE TABLE public.'' @ fst t @ '' (''"
      by (auto simp: table_entries_def)
    then have "diesel_table @ '' ('' = fst t @ '' (''" unfolding d by simp
    then have "fst t = diesel_table" by simp
    with t assms show False by force
  qed
  have 5: "?d \<notin> set (constraint_block st)"
    by (auto simp: constraint_block_def constraint_entries_def split: if_splits)
  have 6: "?d \<notin> set (index_block st)"
    by (auto simp: index_block_def index_entry_def split: if_splits)
  have 7: "?d \<notin> set (trigger_block st)"
    by (auto simp: trigger_block_def split: if_splits)
  from 1 2 3 4 5 6 7 show ?thesis by (simp add: migration_sql_blocks)
qed


text \<open>Entries, offsets and lines of the joined text.\<close>

lemma join_drop:
  "k < length L \<Longrightarrow>
   join [nl] L = concat (map (\<lambda>e. e @ [nl]) (take k L)) @ join [nl] (drop k L)"
proof (induction L arbitrary: k)
  case Nil
  then show ?case by simp
next
  case (Cons x xs)
  show ?case
  proof (cases k)
    case 0
    then show ?thesis by simp
  next
    case (Suc k')
    with Cons.prems have k': "k' < length xs" by simp
    then obtain y ys where xs: "xs = y # ys" by (cases xs) auto
    from Cons.IH [OF k'] Suc xs show ?thesis by simp
  qed
qed

lemma length_concat_entries:
  "length (concat (map (\<lambda>e. e @ [nl]) xs)) = (\<Sum>e\<leftarrow>xs. length e + 1)"
  by (induction xs) simp_all

lemma count_concat_entries:
  "count_list (concat (map (\<lambda>e. e @ [nl]) xs)) nl = (\<Sum>e\<leftarrow>xs. count_list e nl + 1)"
  by (induction xs) simp_all

lemma line_of_entry:
  assumes "k < length L"
  shows "line_of (join [nl] L) (entry_offset L k) = (\<Sum>e\<leftarrow>take k L. count_list e nl + 1)"
proof -
  have "take (entry_offset L k) (join [nl] L) = concat (map (\<lambda>e. e @ [nl]) (take k L))"
    by (subst join_drop [OF assms]) (simp add: entry_offset_def length_concat_entries)
  then show ?thesis by (simp add: line_of_def count_concat_entries)
qed

lemma line_of_entry_mono:
  assumes "i < j" "j < length L"
  shows "line_of (join [nl] L) (entry_offset L i) < line_of (join [nl] L) (entry_offset L j)"
proof -
  from assms have i: "i < length L" by simp
  from assms have "take j L = take (i + (j - i)) L" by simp
  also have "\<dots> = take i L @ take (j - i) (drop i L)" by (rule take_add)
  also have "take (j - i) (drop i L) = L ! i # take (j - Suc i) (drop (Suc i) L)"
  proof -
    from assms have d: "j - i = Suc (j - Suc i)" by arith
    have "drop i L = L ! i # drop (Suc i) L" using i by (rule Cons_nth_drop_Suc [symmetric])
    then show ?thesis by (simp add: d)
  qed
  finally have "take j L = take i L @ L ! i # take (j - Suc i) (drop (Suc i) L)" .
  then show ?thesis
    by (simp add: line_of_entry [OF i] line_of_entry [OF assms(2)])
qed


text \<open>The value lines of an enum type.\<close>

lemma enumerate_last_map:
  "vs \<noteq> [] \<Longrightarrow>
   map (\<lambda>(i, v). if int i = int (k + length vs) - 1 then f v else g v) (enumerate k vs)
     = map g (butlast vs) @ [f (last vs)]"
proof (induction vs arbitrary: k)
  case Nil
  then show ?case by simp
next
  case (Cons v vs)
  show ?case
  proof (cases "vs = []")
    case True
    then show ?thesis by simp
  next
    case False
    from Cons.IH [OF False, of "Suc k"] False show ?thesis by simp
  qed
qed

lemma split_no_sep: "p \<in> set (split c s) \<Longrightarrow> c \<notin> set p"
proof (induction s arbitrary: p)
  case Nil
  then show ?case by simp
next
  case (Cons x xs)
  then show ?case
    by (cases "split c xs") (auto split: if_splits)
qed

lemma set_strip: "set (strip s) \<subseteq> set s"
proof -
  have "set (strip s) = set (dropWhile is_space (rev (dropWhile is_space s)))"
    by (simp add: strip_def)
  also have "\<dots> \<subseteq> set (rev (dropWhile is_space s))"
    by (auto dest: set_dropWhileD)
  also have "\<dots> \<subseteq> set s"
    by (auto dest: set_dropWhileD)
  finally show ?thesis .
qed

lemma add_enum_values_eq:
  "add_enum_values enum_values sql =
     sql @ map (\<lambda>v. ''    '' @ v @ '','') (butlast (map strip (split CHR '','' enum_values)))
         @ [''    '' @ last (map strip (split CHR '','' enum_values))]"
proof -
  let ?vs = "map strip (split CHR '','' enum_values)"
  have ne: "?vs \<noteq> []" by (simp add: split_not_Nil)
  from enumerate_last_map [OF ne, of 0 "\<lambda>v. ''    '' @ v" "\<lambda>v. ''    '' @ v @ '',''"]
  show ?thesis
    unfolding add_enum_values_def Let_def
    by (simp add: enumerate_values_lines)
qed

text \<open>The loop of the naming check.\<close>

lemma foldl_naming_step_flag:
  "snd (foldl naming_step (out, b) xs) = (b \<or> (\<exists>m\<in>set xs. length (fst (snd m)) < 3))"
  by (induction xs arbitrary: out b)
     (auto simp: naming_step_def Let_def case_prod_unfold)

lemma foldl_naming_step_keeps:
  "x \<in> set out \<Longrightarrow> x \<in> set (fst (foldl naming_step (out, b) xs))"
  by (induction xs arbitrary: out b)
     (auto simp: naming_step_def Let_def case_prod_unfold)

lemma foldl_naming_step_warns:
  "m \<in> set xs \<Longrightarrow> \<not> matches_convention (fst (snd m)) \<Longrightarrow>
   Warn_convention (fst (snd m)) \<in> set (fst (foldl naming_step (out, b) xs))"
proof (induction xs arbitrary: out b)
  case Nil
  then show ?case by simp
next
  case (Cons x xs)
  show ?case
  proof (cases "m = x")
    case True
    obtain out' b' where s: "naming_step (out, b) x = (out', b')" by (cases "naming_step (out, b) x")
    with True Cons.prems(2) have "Warn_convention (fst (snd m)) \<in> set out'"
      by (auto simp: naming_step_def Let_def case_prod_unfold split: if_splits)
    from foldl_naming_step_keeps [OF this] s show ?thesis by simp
  next
    case False
    obtain out' b' where s: "naming_step (out, b) x = (out', b')" by (cases "naming_step (out, b) x")
    from False Cons.prems have "m \<in> set xs" by simp
    from Cons.IH [OF this Cons.prems(2)] s show ?thesis by simp
  qed
qed


section \<open>Text appended to the input\<close>

lemma spans_rest:
  "(u, r) \<in> set (spans P t) \<Longrightarrow> (u = [] \<and> r = t) \<or> strict_suffix r t"
proof (cases t)
  case Nil
  assume "(u, r) \<in> set (spans P t)"
  with Nil show ?thesis by simp
next
  case (Cons c cs)
  assume "(u, r) \<in> set (spans P t)"
  with Cons consider "u = [] \<and> r = t" | u' where "(u', r) \<in> set (spans P cs)"
    by (auto split: if_splits)
  then show ?thesis
  proof cases
    case 1
    then show ?thesis by simp
  next
    case 2
    from spans_split [OF 2] have "suffix r cs" by (simp add: suffix_def)
    with Cons show ?thesis by (auto simp: strict_suffix_def suffix_Cons dest: suffix_order.antisym)
  qed
qed

lemma spans_last: "\<exists>xs. spans P t = xs @ [([], t)] \<and> (\<forall>(u, r)\<in>set xs. strict_suffix r t)"
proof (cases t)
  case Nil
  then show ?thesis by simp
next
  case (Cons c cs)
  let ?xs = "if P c then map (\<lambda>(u, r). (c # u, r)) (spans P cs) else []"
  have "spans P t = ?xs @ [([], t)]" using Cons by simp
  moreover have "\<forall>(u, r)\<in>set ?xs. strict_suffix r t"
  proof (clarsimp split: if_splits)
    fix u r assume "(u, r) \<in> set (spans P cs)"
    from spans_split [OF this] have "suffix r cs" by (simp add: suffix_def)
    with Cons show "strict_suffix r t"
      by (auto simp: strict_suffix_def suffix_Cons dest: suffix_order.antisym)
  qed
  ultimately show ?thesis by blast
qed

lemma concat_map_all_Nil: "(\<forall>x\<in>set xs. f x = []) \<Longrightarrow> concat (map f xs) = []"
  by (induction xs) simp_all

lemma spans_append_cont:
  assumes "\<And>u r. K (u, r @ t) = K' (u, r)"
    and "\<And>u r. strict_suffix r t \<Longrightarrow> K (u, r) = []"
  shows "concat (map K (filter (\<lambda>(u, r). n \<le> length u) (spans P (s @ t))))
       = concat (map K' (filter (\<lambda>(u, r). n \<le> length u) (spans P s)))"
  using assms
proof (induction s arbitrary: K K' n)
  case Nil
  obtain xs where xs: "spans P t = xs @ [([], t)]" and st: "\<forall>(u, r)\<in>set xs. strict_suffix r t"
    using spans_last by blast
  have A: "\<forall>x\<in>set xs. K x = []" using st Nil(2) by auto
  have B: "concat (map K (filter (\<lambda>(u, r). n \<le> length u) xs)) = []"
    by (rule concat_map_all_Nil) (use A in auto)
  have C: "K ([], t) = K' ([], [])" using Nil(1) [of "[]" "[]"] by simp
  have "concat (map K (filter (\<lambda>(u, r). n \<le> length u) (spans P ([] @ t))))
      = concat (map K (filter (\<lambda>(u, r). n \<le> length u) xs))
        @ concat (map K (filter (\<lambda>(u, r). n \<le> length u) [([], t)]))"
    by (simp add: xs)
  also have "\<dots> = concat (map K (filter (\<lambda>(u, r). n \<le> length u) [([], t)]))"
    by (simp only: B append_Nil)
  also have "\<dots> = concat (map K' (filter (\<lambda>(u, r). n \<le> length u) (spans P [])))"
    using C by simp
  finally show ?case .
next
  case (Cons c s)
  let ?g = "\<lambda>(u, r). (c # u, r :: string)"
  have f: "filter (\<lambda>(u, r). n \<le> length u) (map ?g xs)
         = map ?g (filter (\<lambda>(u, r). n - 1 \<le> length u) xs)" for xs :: "(string \<times> string) list"
    by (induction xs) auto
  have ih: "concat (map (K \<circ> ?g) (filter (\<lambda>(u, r). n - 1 \<le> length u) (spans P (s @ t))))
         = concat (map (K' \<circ> ?g) (filter (\<lambda>(u, r). n - 1 \<le> length u) (spans P s)))"
    by (rule Cons.IH) (simp_all add: Cons.prems)
  have l: "K ([], c # s @ t) = K' ([], c # s)" using Cons.prems(1) [of "[]" "c # s"] by simp
  show ?case using ih l by (cases "n = 0") (simp_all add: f)
qed

lemma atom_ms_append_cont:
  assumes "\<And>u r. K (u, r @ t) = K' (u, r)"
    and "\<And>u r. strict_suffix r t \<Longrightarrow> K (u, r) = []"
  shows "concat (map K (atom_ms a (s @ t))) = concat (map K' (atom_ms a s))"
proof (cases a)
  case (Rep c n)
  then show ?thesis using spans_append_cont [of K t K', OF assms] by simp
next
  case (Lit l)
  show ?thesis
  proof (cases "prefix l s")
    case True
    then have "prefix l (s @ t)" by (simp add: prefix_prefix)
    moreover from True have "drop (length l) (s @ t) = drop (length l) s @ t"
      by (auto simp: prefix_def)
    ultimately show ?thesis using True Lit assms(1) by simp
  next
    case False
    show ?thesis
    proof (cases "prefix l (s @ t)")
      case nf: False
      with False Lit show ?thesis by simp
    next
      case True
      then obtain w where w: "s @ t = l @ w" by (auto simp: prefix_def)
      have ll: "length s < length l"
      proof (rule ccontr)
        assume "\<not> length s < length l"
        then have "length l \<le> length s" by simp
        moreover from w have "take (length l) (s @ t) = l" by simp
        ultimately have "take (length l) s = l" by simp
        then have "prefix l s" by (metis take_is_prefix)
        with False show False by simp
      qed
      from w have "w = drop (length l) (s @ t)" by simp
      with ll have wd: "w = drop (length l - length s) t" by simp
      then have "suffix w t" by (simp add: Sublist.suffix_drop)
      moreover from w have "length s + length t = length l + length w"
        by (metis length_append)
      with ll have "w \<noteq> t" by auto
      ultimately have "strict_suffix w t" by (auto simp: strict_suffix_def)
      then have "K (l, w) = []" by (rule assms(2))
      moreover have "drop (length l) (s @ t) = w" using w by simp
      ultimately show ?thesis using True False Lit by simp
    qed
  qed
qed

lemma concat_map_concat:
  "concat (map f (concat xss)) = concat (map (\<lambda>xs. concat (map f xs)) xss)"
  by (induction xss) simp_all

lemma atoms_ms_suffix: "(u, r) \<in> set (atoms_ms as s) \<Longrightarrow> suffix r s"
  by (auto dest: atoms_ms_split simp: suffix_def)

lemma strict_suffix_trans1: "suffix r r' \<Longrightarrow> strict_suffix r' t \<Longrightarrow> strict_suffix r t"
  by (rule suffix_order.le_less_trans)

lemma atoms_ms_append_cont:
  assumes "\<And>u r. K (u, r @ t) = K' (u, r)"
    and "\<And>u r. strict_suffix r t \<Longrightarrow> K (u, r) = []"
  shows "concat (map K (atoms_ms as (s @ t))) = concat (map K' (atoms_ms as s))"
  using assms
proof (induction as arbitrary: K K' s)
  case Nil
  from Nil(1) [of "[]" s] show ?case by simp
next
  case (Cons a as)
  let ?h = "\<lambda>u (v, r'). (u @ v, r' :: string)"
  let ?G = "\<lambda>(u, r). concat (map (K \<circ> ?h u) (atoms_ms as r))"
  let ?G' = "\<lambda>(u, r). concat (map (K' \<circ> ?h u) (atoms_ms as r))"
  have 1: "?G (u, r @ t) = ?G' (u, r)" for u r
    using Cons.IH [of "K \<circ> ?h u" "K' \<circ> ?h u" r]
    by (simp add: Cons.prems comp_def)
  have 2: "?G (u, r) = []" if "strict_suffix r t" for u r
  proof -
    have "\<forall>x\<in>set (atoms_ms as r). (K \<circ> ?h u) x = []"
    proof
      fix x assume x: "x \<in> set (atoms_ms as r)"
      obtain v r' where xx: "x = (v, r')" by (cases x)
      with x have sf: "suffix r' r" by (auto dest: atoms_ms_suffix)
      from sf that have "strict_suffix r' t" by (rule strict_suffix_trans1)
      with xx show "(K \<circ> ?h u) x = []" by (simp add: Cons.prems(2))
    qed
    then show ?thesis by (simp add: concat_map_all_Nil)
  qed
  have "concat (map ?G (atom_ms a (s @ t))) = concat (map ?G' (atom_ms a s))"
    by (rule atom_ms_append_cont) (use 1 2 in \<open>simp_all add: case_prod_unfold\<close>)
  then show ?case
    by (simp add: concat_map_concat case_prod_unfold comp_def)
qed

text \<open>A match of a pattern that ends with a semicolon takes in a semicolon.\<close>

lemma ms_consumes_semicolon:
  "ends_with_semicolon q \<Longrightarrow> (g, r) \<in> set (ms q s) \<Longrightarrow>
   \<exists>u. s = u @ r \<and> CHR '';'' \<in> set u"
proof (induction q arbitrary: g s rule: ends_with_semicolon.induct)
  case 1
  then show ?case by simp
next
  case (2 i)
  then obtain l where i: "i = Plain (Lit l)" and l: "l \<noteq> []" "last l = CHR '';''"
    by (auto split: item.splits atom.splits)
  with 2 have "s = l @ r" by (auto simp: prefix_def split: if_splits)
  moreover from l have "CHR '';'' \<in> set l" by (metis last_in_set)
  ultimately show ?case by blast
next
  case (3 i j q)
  from "3.prems"(1) have e: "ends_with_semicolon (j # q)" by simp
  have "\<exists>u0 r0 g0. s = u0 @ r0 \<and> (g0, r) \<in> set (ms (j # q) r0)"
  proof (cases i)
    case (Plain a)
    with "3.prems"(2) obtain u0 r0 where "(u0, r0) \<in> set (atom_ms a s)"
      "(g, r) \<in> set (ms (j # q) r0)" by auto
    then show ?thesis using atom_ms_split by blast
  next
    case (Group a)
    with "3.prems"(2) obtain u0 r0 g0 where "(u0, r0) \<in> set (atom_ms a s)"
      "(g0, r) \<in> set (ms (j # q) r0)" by auto
    then show ?thesis using atom_ms_split by blast
  next
    case (Optional as)
    with "3.prems"(2) consider u0 r0 where "(u0, r0) \<in> set (atoms_ms as s)"
      "(g, r) \<in> set (ms (j # q) r0)" | "(g, r) \<in> set (ms (j # q) s)" by auto
    then show ?thesis
    proof cases
      case 1
      then show ?thesis using atoms_ms_split by blast
    next
      case 2
      then have "s = [] @ s \<and> (g, r) \<in> set (ms (j # q) s)" by simp
      then show ?thesis by blast
    qed
  qed
  then obtain u0 r0 g0 where s: "s = u0 @ r0" and m: "(g0, r) \<in> set (ms (j # q) r0)"
    by blast
  from "3.IH" [OF e m] obtain u where "r0 = u @ r" "CHR '';'' \<in> set u" by blast
  with s have "s = (u0 @ u) @ r \<and> CHR '';'' \<in> set (u0 @ u)" by simp
  then show ?case by blast
qed

lemma ms_no_semicolon:
  "ends_with_semicolon q \<Longrightarrow> CHR '';'' \<notin> set s \<Longrightarrow> ms q s = []"
proof (rule ccontr)
  assume q: "ends_with_semicolon q" and s: "CHR '';'' \<notin> set s" and "ms q s \<noteq> []"
  then obtain g r where "(g, r) \<in> set (ms q s)" by (cases "ms q s") auto
  from ms_consumes_semicolon [OF q this] s show False by auto
qed

lemma strict_suffix_set: "strict_suffix r t \<Longrightarrow> set r \<subseteq> set t"
  by (auto simp: strict_suffix_def suffix_def)

text \<open>
  Text without a semicolon, appended to the input, changes no match of a pattern that
  ends with a semicolon.
\<close>

lemma ms_append:
  "ends_with_semicolon q \<Longrightarrow> CHR '';'' \<notin> set t \<Longrightarrow>
   ms q (s @ t) = map (\<lambda>(g, r). (g, r @ t)) (ms q s)"
proof (induction q arbitrary: s rule: ends_with_semicolon.induct)
  case 1
  then show ?case by simp
next
  case (2 i)
  then obtain l where i: "i = Plain (Lit l)" and l: "l \<noteq> []" "last l = CHR '';''"
    by (auto split: item.splits atom.splits)
  have "ms [Plain (Lit l)] (s @ t) = concat (map (\<lambda>(u, r). [([], r)]) (atom_ms (Lit l) (s @ t)))"
    by simp
  also have "\<dots> = concat (map (\<lambda>(u, r). [([], r @ t)]) (atom_ms (Lit l) s))"
  proof (cases "prefix l (s @ t)")
    case False
    then have "\<not> prefix l s" by (auto simp: prefix_def)
    with False show ?thesis by simp
  next
    case True
    then obtain w where w: "s @ t = l @ w" by (auto simp: prefix_def)
    have "length l \<le> length s"
    proof (rule ccontr)
      assume "\<not> length l \<le> length s"
      then have ll: "length s < length l" by simp
      from w have "l = take (length l) (s @ t)" by simp
      with ll have "l = s @ take (length l - length s) t" by simp
      then obtain x where x: "l = s @ x" "x = take (length l - length s) t" by blast
      from x(1) ll have "x \<noteq> []" by auto
      with x(1) have "last l = last x" by simp
      with \<open>x \<noteq> []\<close> have "last l \<in> set x" by simp
      with x(2) have "last l \<in> set t" by (auto dest: in_set_takeD)
      with l "2.prems" show False by simp
    qed
    moreover from w have "take (length l) (s @ t) = l" by simp
    ultimately have "take (length l) s = l" by simp
    then have p: "prefix l s" by (metis take_is_prefix)
    then have "drop (length l) (s @ t) = drop (length l) s @ t" by (auto simp: prefix_def)
    with True p show ?thesis by simp
  qed
  also have "\<dots> = map (\<lambda>(g, r). (g, r @ t)) (ms [Plain (Lit l)] s)"
    by simp
  finally show ?case using i by simp
next
  case (3 i j q)
  from "3.prems"(1) have e: "ends_with_semicolon (j # q)" by simp
  let ?L = "\<lambda>(g, r). (g :: string list, r @ t)"
  have ih: "ms (j # q) (r @ t) = map ?L (ms (j # q) r)" for r
    by (rule "3.IH" [OF e "3.prems"(2)])
  have kill: "ms (j # q) r = []" if "strict_suffix r t" for r
    using e "3.prems"(2) strict_suffix_set [OF that] by (intro ms_no_semicolon) auto
  show ?case
  proof (cases i)
    case (Plain a)
    have "concat (map (\<lambda>(u, r). ms (j # q) r) (atom_ms a (s @ t)))
        = concat (map (\<lambda>(u, r). map ?L (ms (j # q) r)) (atom_ms a s))"
      by (rule atom_ms_append_cont) (simp_all add: ih kill)
    with Plain show ?thesis by (simp add: map_concat comp_def case_prod_unfold)
  next
    case (Group a)
    have "concat (map (\<lambda>(u, r). map (\<lambda>(g, r'). (u # g, r')) (ms (j # q) r)) (atom_ms a (s @ t)))
        = concat (map (\<lambda>(u, r). map ?L (map (\<lambda>(g, r'). (u # g, r')) (ms (j # q) r)))
            (atom_ms a s))"
      by (rule atom_ms_append_cont) (simp_all add: ih kill case_prod_unfold comp_def)
    with Group show ?thesis by (simp add: map_concat comp_def case_prod_unfold)
  next
    case (Optional as)
    have "concat (map (\<lambda>(u, r). ms (j # q) r) (atoms_ms as (s @ t)))
        = concat (map (\<lambda>(u, r). map ?L (ms (j # q) r)) (atoms_ms as s))"
      by (rule atoms_ms_append_cont) (simp_all add: ih kill)
    with Optional show ?thesis by (simp add: map_concat comp_def case_prod_unfold ih)
  qed
qed

lemma match_at_append:
  "ends_with_semicolon q \<Longrightarrow> CHR '';'' \<notin> set t \<Longrightarrow>
   match_at q (s @ t) = map_option (\<lambda>(g, r). (g, r @ t)) (match_at q s)"
  by (simp add: match_at_def ms_append split: list.splits)

lemma match_at_shorter:
  "ends_with_semicolon q \<Longrightarrow> match_at q s = Some (g, r) \<Longrightarrow> length r < length s"
proof -
  assume q: "ends_with_semicolon q" and "match_at q s = Some (g, r)"
  then have "(g, r) \<in> set (ms q s)" by (auto simp: match_at_def split: list.splits)
  from ms_consumes_semicolon [OF q this] obtain u where "s = u @ r" "CHR '';'' \<in> set u"
    by blast
  then show ?thesis by (cases u) auto
qed

lemma match_at_no_semicolon:
  "ends_with_semicolon q \<Longrightarrow> CHR '';'' \<notin> set s \<Longrightarrow> match_at q s = None"
  by (simp add: match_at_def ms_no_semicolon)

lemma finditer_from_no_semicolon:
  "ends_with_semicolon q \<Longrightarrow> CHR '';'' \<notin> set t \<Longrightarrow> finditer_from q k t = []"
proof (induction t arbitrary: k)
  case Nil
  then show ?case by (simp add: finditer_from_None match_at_no_semicolon)
next
  case (Cons c t)
  from Cons.prems have "match_at q (c # t) = None" by (intro match_at_no_semicolon) auto
  with Cons show ?case by (simp add: finditer_from_None)
qed

lemma finditer_from_append:
  "ends_with_semicolon q \<Longrightarrow> CHR '';'' \<notin> set t \<Longrightarrow>
   finditer_from q k (s @ t) = finditer_from q k s"
proof (induction q k s rule: finditer_from.induct)
  case (1 q k s)
  note q = "1.prems"(1) and t = "1.prems"(2)
  show ?case
  proof (cases "match_at q s")
    case None
    then have N: "match_at q (s @ t) = None" by (simp add: match_at_append [OF q t])
    show ?thesis
    proof (cases "s = []")
      case True
      then show ?thesis
        using None by (simp add: finditer_from_None finditer_from_no_semicolon [OF q t])
    next
      case False
      then have "tl (s @ t) = tl s @ t" by (cases s) auto
      with "1.IH"(1) [OF None False q t] None N False show ?thesis
        by (simp add: finditer_from_None)
    qed
  next
    case (Some p)
    obtain g r where p: "p = (g, r)" by (cases p)
    from Some p have M: "match_at q s = Some (g, r)" by simp
    then have M': "match_at q (s @ t) = Some (g, r @ t)" by (simp add: match_at_append [OF q t])
    from match_at_shorter [OF q M] have lt: "length r < length s" .
    from "1.IH"(2) [OF M refl lt q t] lt show ?thesis
      by (simp add: finditer_from_Some [OF M] finditer_from_Some [OF M'])
  qed
qed

lemma finditer_append:
  "ends_with_semicolon q \<Longrightarrow> CHR '';'' \<notin> set t \<Longrightarrow> finditer q (s @ t) = finditer q s"
  by (simp add: finditer_def finditer_from_append)

lemma patterns_end_with_semicolon:
  "ends_with_semicolon extension_pattern" "ends_with_semicolon type_pattern"
  "ends_with_semicolon table_pattern" "ends_with_semicolon index_pattern"
  "ends_with_semicolon constraint_pattern" "ends_with_semicolon trigger_pattern"
  "ends_with_semicolon function_pattern"
  by (simp_all add: extension_pattern_def type_pattern_def table_pattern_def index_pattern_def
      constraint_pattern_def trigger_pattern_def function_pattern_def)

lemma extract_append_unterminated:
  "CHR '';'' \<notin> set t \<Longrightarrow> extract_ddl_statements (s @ t) = extract_ddl_statements s"
  by (simp add: extract_ddl_statements_eq finditer_append patterns_end_with_semicolon)

text \<open>A match takes in the characters of every literal of the pattern.\<close>

lemma ms_literal:
  "Plain (Lit l) \<in> set q \<Longrightarrow> (g, r) \<in> set (ms q s) \<Longrightarrow> set l \<subseteq> set s"
proof (induction q arbitrary: g s)
  case Nil
  then show ?case by simp
next
  case (Cons i q)
  have sub: "set l \<subseteq> set r0" if "Plain (Lit l) \<in> set q" "(g0, r) \<in> set (ms q r0)" for g0 r0
    using Cons.IH that by blast
  show ?case
  proof (cases i)
    case (Plain a)
    with Cons.prems(2) obtain u0 r0 where a: "(u0, r0) \<in> set (atom_ms a s)"
      and m: "(g, r) \<in> set (ms q r0)" by auto
    from atom_ms_split [OF a] have s: "s = u0 @ r0" .
    show ?thesis
    proof (cases "i = Plain (Lit l)")
      case True
      with Plain a have "u0 = l" by (auto split: if_splits)
      with s show ?thesis by auto
    next
      case False
      with Cons.prems(1) have "Plain (Lit l) \<in> set q" by simp
      from sub [OF this m] s show ?thesis by auto
    qed
  next
    case (Group a)
    with Cons.prems(2) obtain u0 r0 g0 where a: "(u0, r0) \<in> set (atom_ms a s)"
      and m: "(g0, r) \<in> set (ms q r0)" by auto
    from Group Cons.prems(1) have "Plain (Lit l) \<in> set q" by simp
    from sub [OF this m] atom_ms_split [OF a] show ?thesis by auto
  next
    case (Optional as)
    from Optional Cons.prems(1) have q: "Plain (Lit l) \<in> set q" by simp
    from Optional Cons.prems(2) consider u0 r0 where "(u0, r0) \<in> set (atoms_ms as s)"
      "(g, r) \<in> set (ms q r0)" | "(g, r) \<in> set (ms q s)" by auto
    then show ?thesis
    proof cases
      case 1
      from sub [OF q 1(2)] atoms_ms_split [OF 1(1)] show ?thesis by auto
    next
      case 2
      from sub [OF q 2] show ?thesis .
    qed
  qed
qed

lemma match_at_missing_char:
  assumes "Plain (Lit l) \<in> set q" "c \<in> set l" "c \<notin> set s"
  shows "match_at q s = None"
proof (cases "ms q s")
  case Nil
  then show ?thesis by (simp add: match_at_def)
next
  case (Cons m xs)
  obtain g r where "m = (g, r)" by (cases m)
  with Cons have "(g, r) \<in> set (ms q s)" by simp
  from ms_literal [OF assms(1) this] assms(2,3) show ?thesis by auto
qed

lemma finditer_from_missing_char:
  assumes "Plain (Lit l) \<in> set q" "c \<in> set l" "c \<notin> set s"
  shows "finditer_from q k s = []"
  using assms(3)
proof (induction s arbitrary: k)
  case Nil
  from match_at_missing_char [OF assms(1,2) Nil] show ?case by (simp add: finditer_from_None)
next
  case (Cons x s)
  from match_at_missing_char [OF assms(1,2) Cons.prems] Cons.IH Cons.prems
  show ?case by (simp add: finditer_from_None)
qed


section \<open>Extracting the emitted text again\<close>

lemma finditer_from_shift:
  "map snd (finditer_from q k s) = map snd (finditer_from q k' s)"
proof (induction q k s arbitrary: k' rule: finditer_from.induct)
  case (1 q k s)
  show ?case
  proof (cases "match_at q s")
    case None
    show ?thesis
    proof (cases "s = []")
      case True
      with None have N0: "match_at q [] = None" by simp
      show ?thesis unfolding True by (simp add: finditer_from_None [OF N0])
    next
      case False
      from "1.IH"(1) [OF None False, of "Suc k'"] None False show ?thesis
        by (simp add: finditer_from_None)
    qed
  next
    case (Some p)
    obtain g r where p: "p = (g, r)" by (cases p)
    from Some p have M: "match_at q s = Some (g, r)" by simp
    show ?thesis
    proof (cases "length r < length s")
      case True
      from "1.IH"(2) [OF M refl True, of "k' + (length s - length r)"] True show ?thesis
        by (simp add: finditer_from_Some [OF M])
    next
      case False
      show ?thesis
      proof (cases "s = []")
        case True
        with M have M0: "match_at q [] = Some (g, r)" by simp
        show ?thesis unfolding True by (simp add: finditer_from_Some [OF M0])
      next
        case ne: False
        from "1.IH"(3) [OF M refl False ne, of "Suc k'"] False ne show ?thesis
          by (simp add: finditer_from_Some [OF M])
      qed
    qed
  qed
qed

lemma groups_of_None:
  "match_at q (c # s) = None \<Longrightarrow> groups_of q (c # s) = groups_of q s"
  using finditer_from_shift [of q "Suc 0" s 0]
  by (simp add: groups_of_def finditer_def finditer_from_None)

lemma groups_of_Some:
  "match_at q s = Some (g, r) \<Longrightarrow> length r < length s \<Longrightarrow>
   groups_of q s = g # groups_of q r"
  using finditer_from_shift [of q "length s - length r" r 0]
  by (simp add: groups_of_def finditer_def finditer_from_Some)

lemma silent_Nil: "silent q [] rest"
  by (simp add: silent_def)

lemma silent_Cons:
  "silent q (c # w) rest \<longleftrightarrow> match_at q (c # w @ rest) = None \<and> silent q w rest"
  by (auto simp: silent_def suffix_Cons)

lemma silent_append:
  "silent q (a @ b) rest \<longleftrightarrow> silent q a (b @ rest) \<and> silent q b rest"
  by (induction a) (simp_all add: silent_Cons silent_Nil)

lemma groups_of_silent: "silent q w rest \<Longrightarrow> groups_of q (w @ rest) = groups_of q rest"
  by (induction w) (simp_all add: silent_Cons groups_of_None)

lemma match_at_keyword:
  "keyword_pattern q \<Longrightarrow> \<not> prefix ''CREATE'' s \<Longrightarrow> \<not> prefix ''ALTER'' s \<Longrightarrow>
   match_at q s = None"
proof -
  assume "keyword_pattern q" and c: "\<not> prefix ''CREATE'' s" and a: "\<not> prefix ''ALTER'' s"
  then obtain l q' where q: "q = Plain (Lit l) # q'"
    and l: "prefix ''CREATE'' l \<or> prefix ''ALTER'' l" by (auto simp: keyword_pattern_def)
  have "\<not> prefix l s"
  proof
    assume "prefix l s"
    with l have "prefix ''CREATE'' s \<or> prefix ''ALTER'' s" by (auto intro: prefix_order.trans)
    with c a show False by simp
  qed
  with q show ?thesis by (simp add: match_at_def)
qed

lemma groups_of_Nil: "keyword_pattern q \<Longrightarrow> groups_of q [] = []"
  by (simp add: groups_of_def finditer_def finditer_from_None match_at_keyword)

lemma silent_quiet: "keyword_pattern q \<Longrightarrow> quiet w rest \<Longrightarrow> silent q w rest"
  by (simp add: silent_def quiet_def match_at_keyword)

lemma quiet_Nil: "quiet [] rest"
  by (simp add: quiet_def)

lemma quiet_Cons:
  "quiet (c # w) rest \<longleftrightarrow>
     \<not> prefix ''CREATE'' (c # w @ rest) \<and> \<not> prefix ''ALTER'' (c # w @ rest) \<and> quiet w rest"
  by (auto simp: quiet_def suffix_Cons)

lemma quiet_append: "quiet (a @ b) rest \<longleftrightarrow> quiet a (b @ rest) \<and> quiet b rest"
  by (induction a) (simp_all add: quiet_Cons quiet_Nil)

lemma quiet_calm: "calm w \<Longrightarrow> quiet w rest"
  by (induction w rule: calm.induct) (auto simp: quiet_Cons quiet_Nil)

lemma keyword_free_tl: "keyword_free (c # f) \<Longrightarrow> keyword_free f"
  by (auto simp: keyword_free_def sublist_Cons_right)

lemma prefix_keyword_cases:
  assumes "prefix k (f @ c # rest)" "c \<notin> set k"
  shows "prefix k f"
proof -
  from assms(1) obtain z where z: "f @ c # rest = k @ z" by (auto simp: prefix_def)
  have "length k \<le> length f"
  proof (rule ccontr)
    assume "\<not> length k \<le> length f"
    then have "length f < length k" by simp
    with z have "k ! length f = c"
      by (metis nth_append nth_append_length)
    with \<open>length f < length k\<close> assms(2) show False by (metis nth_mem)
  qed
  with z have "take (length k) f = k" by (metis append_eq_append_conv_if append_eq_conv_conj)
  then show ?thesis by (metis take_is_prefix)
qed

lemma quiet_field:
  assumes "keyword_free f" "c \<notin> set ''CREATE''" "c \<notin> set ''ALTER''"
  shows "quiet f (c # rest)"
  using assms(1)
proof (induction f)
  case Nil
  then show ?case by (simp add: quiet_Nil)
next
  case (Cons x f)
  have "\<not> prefix ''CREATE'' ((x # f) @ c # rest)"
  proof
    assume "prefix ''CREATE'' ((x # f) @ c # rest)"
    from prefix_keyword_cases [OF this assms(2)] Cons.prems show False
      by (auto simp: keyword_free_def)
  qed
  moreover have "\<not> prefix ''ALTER'' ((x # f) @ c # rest)"
  proof
    assume "prefix ''ALTER'' ((x # f) @ c # rest)"
    from prefix_keyword_cases [OF this assms(3)] Cons.prems show False
      by (auto simp: keyword_free_def)
  qed
  ultimately show ?case using Cons.IH [OF keyword_free_tl [OF Cons.prems]]
    by (simp add: quiet_Cons)
qed

lemma spans_run:
  "list_all P f \<Longrightarrow> \<not> P d \<Longrightarrow> \<exists>xs. spans P (f @ d # s) = (f, d # s) # xs"
  by (induction f) auto

lemma spans_run2:
  "list_all P (f @ [x]) \<Longrightarrow> \<not> P d \<Longrightarrow>
   \<exists>xs. spans P (f @ x # d # s) = (f @ [x], d # s) # (f, x # d # s) # xs"
  by (induction f) auto

lemma match_at_Nil: "match_at [] s = Some ([], s)"
  by (simp add: match_at_def)

lemma match_at_Lit: "match_at (Plain (Lit l) # q) (l @ s) = match_at q s"
  by (simp add: match_at_def)

lemma match_at_Group:
  assumes "list_all (in_cls c) f" "n \<le> length f" "\<not> in_cls c d"
    and "match_at q (d # s) = Some (g, r)"
  shows "match_at (Group (Rep c n) # q) (f @ d # s) = Some (f # g, r)"
proof -
  from spans_run [OF assms(1,3)] obtain xs where
    "spans (in_cls c) (f @ d # s) = (f, d # s) # xs" by blast
  moreover from assms(4) obtain ys where "ms q (d # s) = (g, r) # ys"
    by (auto simp: match_at_def split: list.splits)
  ultimately show ?thesis using assms(2) by (simp add: match_at_def)
qed

lemma match_at_Plain_Rep:
  assumes "list_all (in_cls c) f" "n \<le> length f" "\<not> in_cls c d"
    and "match_at q (d # s) = Some (g, r)"
  shows "match_at (Plain (Rep c n) # q) (f @ d # s) = Some (g, r)"
proof -
  from spans_run [OF assms(1,3)] obtain xs where
    "spans (in_cls c) (f @ d # s) = (f, d # s) # xs" by blast
  moreover from assms(4) obtain ys where "ms q (d # s) = (g, r) # ys"
    by (auto simp: match_at_def split: list.splits)
  ultimately show ?thesis using assms(2) by (simp add: match_at_def)
qed

lemma match_at_Group_back:
  assumes "list_all (in_cls c) (f @ [x])" "n \<le> length f" "\<not> in_cls c d"
    and "ms q (d # s) = []" and "match_at q (x # d # s) = Some (g, r)"
  shows "match_at (Group (Rep c n) # q) (f @ x # d # s) = Some (f # g, r)"
proof -
  from spans_run2 [OF assms(1,3)] obtain xs where
    "spans (in_cls c) (f @ x # d # s) = (f @ [x], d # s) # (f, x # d # s) # xs" by blast
  moreover from assms(5) obtain ys where "ms q (x # d # s) = (g, r) # ys"
    by (auto simp: match_at_def split: list.splits)
  ultimately show ?thesis using assms(2,4) by (simp add: match_at_def)
qed

lemma not_word_chars:
  "\<not> is_word CHR '' ''" "\<not> is_word nl" "\<not> is_word CHR '';''" "\<not> is_word CHR '',''"
  "\<not> is_word CHR ''(''" "\<not> is_word CHR '')''"
  by (simp_all add: is_word_def nl_def)

lemma space_chars: "is_space CHR '' ''" "is_space nl" "\<not> is_space CHR ''A''"
  by (simp_all add: is_space_def nl_def)

lemma list_all_in_cls:
  "list_all (in_cls Word) f = list_all is_word f"
  "list_all (in_cls Space) f = list_all is_space f"
  "list_all (in_cls (NotChar c)) f = (c \<notin> set f)"
  by (induction f) auto

lemma extension_match:
  assumes "wordy n"
  shows "match_at extension_pattern
           (''CREATE EXTENSION IF NOT EXISTS '' @ n @ '' WITH SCHEMA public;'' @ rest)
         = Some ([n], rest)"
proof -
  have 1: "match_at [Plain (Lit '' WITH SCHEMA public;'')]
             (CHR '' '' # ''WITH SCHEMA public;'' @ rest) = Some ([], rest)"
    using match_at_Lit [of "'' WITH SCHEMA public;''" "[]" rest] by (simp add: match_at_Nil)
  have 2: "match_at [Group (Rep Word 1), Plain (Lit '' WITH SCHEMA public;'')]
             (n @ CHR '' '' # ''WITH SCHEMA public;'' @ rest) = Some ([n], rest)"
    by (rule match_at_Group [OF _ _ _ 1])
       (use assms in \<open>auto simp: wordy_def not_word_chars Suc_le_eq list_all_in_cls\<close>)
  show ?thesis
    unfolding extension_pattern_def
    using match_at_Lit [of "''CREATE EXTENSION IF NOT EXISTS ''" _
        "n @ '' WITH SCHEMA public;'' @ rest"] 2
    by simp
qed

lemma match_at_Lit_last: "match_at [Plain (Lit l)] (l @ rest) = Some ([], rest)"
  by (simp add: match_at_Lit match_at_Nil)

lemma type_match:
  assumes "wordy n" "body \<noteq> []" "CHR '')'' \<notin> set body"
  shows "match_at type_pattern
           (''CREATE TYPE public.'' @ n @ '' AS ENUM ('' @ body @ '');'' @ rest)
         = Some ([n, body], rest)"
proof -
  have 1: "match_at [Plain (Lit '');'')] (CHR '')'' # '';'' @ rest) = Some ([], rest)"
    using match_at_Lit_last [of "'');''" rest] by simp
  have 2: "match_at [Group (Rep (NotChar CHR '')'') 1), Plain (Lit '');'')]
             (body @ CHR '')'' # '';'' @ rest) = Some ([body], rest)"
    by (rule match_at_Group [OF _ _ _ 1])
       (use assms in \<open>auto simp: list_all_in_cls Suc_le_eq\<close>)
  have 3: "match_at [Plain (Lit '' AS ENUM (''), Group (Rep (NotChar CHR '')'') 1),
                     Plain (Lit '');'')]
             (CHR '' '' # ''AS ENUM ('' @ body @ '');'' @ rest) = Some ([body], rest)"
    using match_at_Lit [of "'' AS ENUM (''" _ "body @ '');'' @ rest"] 2 by simp
  have 4: "match_at [Group (Rep Word 1), Plain (Lit '' AS ENUM (''),
                     Group (Rep (NotChar CHR '')'') 1), Plain (Lit '');'')]
             (n @ CHR '' '' # ''AS ENUM ('' @ body @ '');'' @ rest) = Some ([n, body], rest)"
    by (rule match_at_Group [OF _ _ _ 3])
       (use assms in \<open>auto simp: wordy_def not_word_chars Suc_le_eq list_all_in_cls\<close>)
  show ?thesis
    unfolding type_pattern_def
    using match_at_Lit [of "''CREATE TYPE public.''" _
        "n @ '' AS ENUM ('' @ body @ '');'' @ rest"] 4
    by simp
qed

lemma table_match:
  assumes "wordy n" "body \<noteq> []" "CHR '';'' \<notin> set body"
  shows "match_at table_pattern
           (''CREATE TABLE public.'' @ n @ '' ('' @ body @ '');'' @ rest)
         = Some ([n, body], rest)"
proof -
  have 1: "match_at [Plain (Lit '');'')] (CHR '')'' # CHR '';'' # rest) = Some ([], rest)"
    using match_at_Lit_last [of "'');''" rest] by simp
  have 0: "ms [Plain (Lit '');'')] (CHR '';'' # rest) = []" by simp
  have 2: "match_at [Group (Rep (NotChar CHR '';'') 1), Plain (Lit '');'')]
             (body @ CHR '')'' # CHR '';'' # rest) = Some ([body], rest)"
    by (rule match_at_Group_back [OF _ _ _ 0 1])
       (use assms in \<open>auto simp: list_all_in_cls Suc_le_eq\<close>)
  have 3: "match_at [Plain (Lit '' (''), Group (Rep (NotChar CHR '';'') 1), Plain (Lit '');'')]
             (CHR '' '' # ''('' @ body @ '');'' @ rest) = Some ([body], rest)"
    using match_at_Lit [of "'' (''" _ "body @ '');'' @ rest"] 2 by simp
  have 4: "match_at [Group (Rep Word 1), Plain (Lit '' (''),
                     Group (Rep (NotChar CHR '';'') 1), Plain (Lit '');'')]
             (n @ CHR '' '' # ''('' @ body @ '');'' @ rest) = Some ([n, body], rest)"
    by (rule match_at_Group [OF _ _ _ 3])
       (use assms in \<open>auto simp: wordy_def not_word_chars Suc_le_eq list_all_in_cls\<close>)
  show ?thesis
    unfolding table_pattern_def
    using match_at_Lit [of "''CREATE TABLE public.''" _ "n @ '' ('' @ body @ '');'' @ rest"] 4
    by simp
qed

lemma trigger_match:
  assumes "wordy n" "d \<noteq> []" "CHR '';'' \<notin> set d"
  shows "match_at trigger_pattern (''CREATE TRIGGER '' @ n @ '' '' @ d @ '';'' @ rest)
         = Some ([n, d], rest)"
proof -
  have 1: "match_at [Plain (Lit '';'')] (CHR '';'' # rest) = Some ([], rest)"
    using match_at_Lit_last [of "'';''" rest] by simp
  have 2: "match_at [Group (Rep (NotChar CHR '';'') 1), Plain (Lit '';'')]
             (d @ CHR '';'' # rest) = Some ([d], rest)"
    by (rule match_at_Group [OF _ _ _ 1])
       (use assms in \<open>auto simp: list_all_in_cls Suc_le_eq\<close>)
  have 3: "match_at [Plain (Lit '' ''), Group (Rep (NotChar CHR '';'') 1), Plain (Lit '';'')]
             (CHR '' '' # d @ '';'' @ rest) = Some ([d], rest)"
    using match_at_Lit [of "'' ''" _ "d @ '';'' @ rest"] 2 by simp
  have 4: "match_at [Group (Rep Word 1), Plain (Lit '' ''),
                     Group (Rep (NotChar CHR '';'') 1), Plain (Lit '';'')]
             (n @ CHR '' '' # d @ '';'' @ rest) = Some ([n, d], rest)"
    by (rule match_at_Group [OF _ _ _ 3])
       (use assms in \<open>auto simp: wordy_def not_word_chars Suc_le_eq list_all_in_cls\<close>)
  show ?thesis
    unfolding trigger_pattern_def
    using match_at_Lit [of "''CREATE TRIGGER ''" _ "n @ '' '' @ d @ '';'' @ rest"] 4
    by simp
qed

lemma constraint_match:
  assumes "wordy t" "wordy n" "d \<noteq> []" "CHR '';'' \<notin> set d"
  shows "match_at constraint_pattern
           (''ALTER TABLE ONLY public.'' @ t @ nl # ''    ADD CONSTRAINT '' @ n @ '' '' @ d
            @ '';'' @ rest)
         = Some ([t, n, d], rest)"
proof -
  let ?q3 = "[Plain (Lit '' ''), Group (Rep (NotChar CHR '';'') 1), Plain (Lit '';'')]"
  have 1: "match_at [Plain (Lit '';'')] (CHR '';'' # rest) = Some ([], rest)"
    using match_at_Lit_last [of "'';''" rest] by simp
  have 2: "match_at [Group (Rep (NotChar CHR '';'') 1), Plain (Lit '';'')]
             (d @ CHR '';'' # rest) = Some ([d], rest)"
    by (rule match_at_Group [OF _ _ _ 1])
       (use assms in \<open>auto simp: list_all_in_cls Suc_le_eq\<close>)
  have 3: "match_at ?q3 (CHR '' '' # d @ '';'' @ rest) = Some ([d], rest)"
    using match_at_Lit [of "'' ''" _ "d @ '';'' @ rest"] 2 by simp
  have 4: "match_at (Group (Rep Word 1) # ?q3) (n @ CHR '' '' # d @ '';'' @ rest)
           = Some ([n, d], rest)"
    by (rule match_at_Group [OF _ _ _ 3])
       (use assms in \<open>auto simp: wordy_def not_word_chars Suc_le_eq list_all_in_cls\<close>)
  have 5: "match_at (Plain (Lit ''ADD CONSTRAINT '') # Group (Rep Word 1) # ?q3)
             (CHR ''A'' # ''DD CONSTRAINT '' @ n @ '' '' @ d @ '';'' @ rest)
           = Some ([n, d], rest)"
    using match_at_Lit [of "''ADD CONSTRAINT ''" _ "n @ '' '' @ d @ '';'' @ rest"] 4 by simp
  have 6: "match_at (Plain (Rep Space 1) # Plain (Lit ''ADD CONSTRAINT '')
                     # Group (Rep Word 1) # ?q3)
             ((nl # ''    '') @ CHR ''A'' # ''DD CONSTRAINT '' @ n @ '' '' @ d @ '';'' @ rest)
           = Some ([n, d], rest)"
    by (rule match_at_Plain_Rep [OF _ _ _ 5]) (simp_all add: space_chars)
  have 7: "match_at (Group (Rep Word 1) # Plain (Rep Space 1) # Plain (Lit ''ADD CONSTRAINT '')
                     # Group (Rep Word 1) # ?q3)
             (t @ nl # ''    ADD CONSTRAINT '' @ n @ '' '' @ d @ '';'' @ rest)
           = Some ([t, n, d], rest)"
  proof -
    have six: "match_at (Plain (Rep Space 1) # Plain (Lit ''ADD CONSTRAINT '')
                     # Group (Rep Word 1) # ?q3)
             (nl # ''    ADD CONSTRAINT '' @ n @ '' '' @ d @ '';'' @ rest)
           = Some ([n, d], rest)"
      using 6 by simp
    show ?thesis
      by (rule match_at_Group [OF _ _ _ six])
         (use assms in \<open>auto simp: wordy_def not_word_chars Suc_le_eq list_all_in_cls\<close>)
  qed
  show ?thesis
    unfolding constraint_pattern_def
    using match_at_Lit [of "''ALTER TABLE ONLY public.''" _
        "t @ nl # ''    ADD CONSTRAINT '' @ n @ '' '' @ d @ '';'' @ rest"] 7
    by simp
qed

lemma silent_calm: "keyword_pattern P \<Longrightarrow> calm w \<Longrightarrow> silent P w rest"
  by (simp add: silent_quiet quiet_calm)

lemma silent_field:
  "keyword_pattern P \<Longrightarrow> keyword_free f \<Longrightarrow> c \<notin> set ''CREATE'' \<Longrightarrow> c \<notin> set ''ALTER'' \<Longrightarrow>
   silent P f (c # rest)"
  by (simp add: silent_quiet quiet_field)

lemma silent_opener:
  "keyword_pattern P \<Longrightarrow> match_at P (c # w @ rest) = None \<Longrightarrow> calm w \<Longrightarrow>
   silent P (c # w) rest"
  by (simp add: silent_Cons silent_calm)

lemma trigger_stmt_silent:
  assumes "keyword_pattern P" "\<And>z. match_at P (''CREATE TRIGGER '' @ z) = None"
    "keyword_free n" "keyword_free d"
  shows "silent P (''CREATE TRIGGER '' @ n @ '' '' @ d @ '';'' @ [nl]) rest"
proof -
  note k = assms(1)
  have 1: "silent P ''CREATE TRIGGER '' z" for z
    using assms(2) [of z] by (intro silent_opener [OF k, of _ "''REATE TRIGGER ''", simplified]) simp_all
  have 2: "silent P n ('' '' @ z)" for z
    using silent_field [OF k assms(3), of "CHR '' ''"] by simp
  have 3: "silent P '' '' z" for z by (rule silent_calm [OF k]) simp
  have 4: "silent P d ('';'' @ z)" for z
    using silent_field [OF k assms(4), of "CHR '';''"] by simp
  have 5: "silent P ('';'' @ [nl]) z" for z by (rule silent_calm [OF k]) (simp add: nl_def)
  show ?thesis
    unfolding silent_append [of P "''CREATE TRIGGER ''"] silent_append [of P n]
      silent_append [of P "'' ''"] silent_append [of P d]
    using 1 2 3 4 5 by (simp del: append.simps)
qed

lemma lines_text_simps:
  "lines_text [] = []" "lines_text (e # L) = e @ nl # lines_text L"
  "lines_text (A @ B) = lines_text A @ lines_text B"
  by (simp_all add: lines_text_def)

lemma join_lines_text: "L \<noteq> [] \<Longrightarrow> join [nl] L @ [nl] = lines_text L"
proof (induction L)
  case Nil
  then show ?case by simp
next
  case (Cons x xs)
  then show ?case by (cases xs) (simp_all add: lines_text_simps)
qed

lemma sublist_strip: "sublist (strip s) s"
proof -
  let ?t = "dropWhile is_space s"
  have "rev (takeWhile is_space (rev ?t) @ dropWhile is_space (rev ?t)) = rev (rev ?t)"
    by (simp only: takeWhile_dropWhile_id)
  then have "?t = strip s @ rev (takeWhile is_space (rev ?t))"
    by (simp only: rev_append rev_rev_ident strip_def)
  moreover have "s = takeWhile is_space s @ ?t" by simp
  ultimately have "s = takeWhile is_space s @ strip s @ rev (takeWhile is_space (rev ?t))"
    by simp
  then show ?thesis unfolding sublist_def by blast
qed

lemma sublist_split: "p \<in> set (split c s) \<Longrightarrow> sublist p s"
proof (induction s arbitrary: p)
  case Nil
  then show ?case by simp
next
  case (Cons x xs)
  show ?case
  proof (cases "x = c")
    case True
    with Cons.prems have "p = [] \<or> p \<in> set (split c xs)" by simp
    with Cons.IH show ?thesis by (auto simp: sublist_Cons_right)
  next
    case False
    obtain q qs where s: "split c xs = q # qs" using split_not_Nil by (cases "split c xs") auto
    with False Cons.prems have "p = x # q \<or> p \<in> set qs" by simp
    then show ?thesis
    proof
      assume p: "p = x # q"
      have "prefix q xs" using s
      proof (induction xs arbitrary: q qs)
        case Nil
        then show ?case by simp
      next
        case (Cons y ys)
        then show ?case
          by (cases "split c ys") (auto split: if_splits)
      qed
      with p show ?thesis by (simp add: sublist_Cons_right)
    next
      assume "p \<in> set qs"
      with s have "p \<in> set (split c xs)" by simp
      with Cons.IH show ?thesis by (auto simp: sublist_Cons_right)
    qed
  qed
qed

lemma sublist_trans: "sublist x y \<Longrightarrow> sublist y z \<Longrightarrow> sublist x z"
proof -
  assume "sublist x y" "sublist y z"
  then obtain a b c d where "y = a @ x @ b" "z = c @ y @ d" by (auto simp: sublist_def)
  then have "z = (c @ a) @ x @ (b @ d)" by simp
  then show ?thesis unfolding sublist_def by blast
qed

lemma keyword_free_sublist: "sublist x y \<Longrightarrow> keyword_free y \<Longrightarrow> keyword_free x"
  unfolding keyword_free_def using sublist_trans by blast

lemma sublist_piece: "x \<in> set (map strip (split c v)) \<Longrightarrow> sublist x v"
proof -
  assume "x \<in> set (map strip (split c v))"
  then obtain p where p: "p \<in> set (split c v)" and x: "x = strip p" by auto
  from sublist_split [OF p] sublist_strip [of p] x show ?thesis
    using sublist_trans by blast
qed

lemma keyword_free_piece:
  "keyword_free v \<Longrightarrow> x \<in> set (map strip (split c v)) \<Longrightarrow> keyword_free x"
  using keyword_free_sublist [OF sublist_piece] by blast

lemma silent_lines:
  "(\<And>e z. e \<in> set L \<Longrightarrow> silent P (e @ [nl]) z) \<Longrightarrow> silent P (lines_text L) rest"
proof (induction L)
  case Nil
  then show ?case by (simp add: lines_text_simps silent_Nil)
next
  case (Cons e L)
  have "silent P (e @ [nl]) (lines_text L @ rest)" by (rule Cons.prems) simp
  moreover have "silent P (lines_text L) rest" by (rule Cons.IH) (simp add: Cons.prems)
  ultimately show ?case
    using silent_append [of P "e @ [nl]" "lines_text L" rest] by (simp add: lines_text_simps)
qed

lemma indented_line_silent:
  assumes "keyword_pattern P" "keyword_free x"
  shows "silent P ((''    '' @ x) @ [nl]) z" and "silent P ((''    '' @ x @ '','') @ [nl]) z"
proof -
  note k = assms(1)
  have 1: "silent P ''    '' y" for y by (rule silent_calm [OF k]) simp
  have 2: "silent P x ([nl] @ y)" for y
    using silent_field [OF k assms(2), of nl] by (simp add: nl_def)
  have 3: "silent P x ('','' @ y)" for y
    using silent_field [OF k assms(2), of "CHR '',''"] by simp
  have 4: "silent P [nl] y" for y by (rule silent_calm [OF k]) (simp add: nl_def)
  have 5: "silent P ('','' @ [nl]) y" for y by (rule silent_calm [OF k]) (simp add: nl_def)
  show "silent P ((''    '' @ x) @ [nl]) z"
    unfolding append_assoc silent_append [of P "''    ''"] silent_append [of P x]
    using 1 2 4 by (simp del: append.simps)
  show "silent P ((''    '' @ x @ '','') @ [nl]) z"
    unfolding append_assoc silent_append [of P "''    ''"] silent_append [of P x]
    using 1 3 5 by (simp del: append.simps)
qed

lemma extension_stmt_silent:
  assumes "keyword_pattern P" "\<And>z. match_at P (''CREATE EXTENSION IF NOT EXISTS '' @ z) = None"
    "keyword_free n"
  shows "silent P (''CREATE EXTENSION IF NOT EXISTS '' @ n @ '' WITH SCHEMA public;'' @ [nl]) rest"
proof -
  note k = assms(1)
  have 1: "silent P ''CREATE EXTENSION IF NOT EXISTS '' z" for z
    using assms(2) [of z]
    by (intro silent_opener [OF k, of _ "''REATE EXTENSION IF NOT EXISTS ''", simplified])
       simp_all
  have 2: "silent P n ('' WITH SCHEMA public;'' @ z)" for z
    using silent_field [OF k assms(3), of "CHR '' ''"] by simp
  have 3: "silent P ('' WITH SCHEMA public;'' @ [nl]) z" for z
    by (rule silent_calm [OF k]) (simp add: nl_def)
  show ?thesis
    unfolding silent_append [of P "''CREATE EXTENSION IF NOT EXISTS ''"] silent_append [of P n]
    using 1 2 3 by (simp del: append.simps)
qed

lemma constraint_stmt_silent:
  assumes "keyword_pattern P" "\<And>z. match_at P (''ALTER TABLE ONLY public.'' @ z) = None"
    "keyword_free t" "keyword_free n" "keyword_free d"
  shows "silent P (''ALTER TABLE ONLY public.'' @ t @ (nl # ''    ADD CONSTRAINT '') @ n
                   @ '' '' @ d @ '';'' @ [nl]) rest"
proof -
  note k = assms(1)
  have 1: "silent P ''ALTER TABLE ONLY public.'' z" for z
    using assms(2) [of z]
    by (intro silent_opener [OF k, of _ "''LTER TABLE ONLY public.''", simplified]) simp_all
  have 2: "silent P t ((nl # ''    ADD CONSTRAINT '') @ z)" for z
    using silent_field [OF k assms(3), of nl] by (simp add: nl_def)
  have 3: "silent P (nl # ''    ADD CONSTRAINT '') z" for z
    by (rule silent_calm [OF k]) (simp add: nl_def)
  have 4: "silent P n ('' '' @ z)" for z
    using silent_field [OF k assms(4), of "CHR '' ''"] by simp
  have 5: "silent P '' '' z" for z by (rule silent_calm [OF k]) simp
  have 6: "silent P d ('';'' @ z)" for z
    using silent_field [OF k assms(5), of "CHR '';''"] by simp
  have 7: "silent P ('';'' @ [nl]) z" for z by (rule silent_calm [OF k]) (simp add: nl_def)
  show ?thesis
    unfolding silent_append [of P "''ALTER TABLE ONLY public.''"] silent_append [of P t]
      silent_append [of P "nl # ''    ADD CONSTRAINT ''"] silent_append [of P n]
      silent_append [of P "'' ''"] silent_append [of P d]
    using 1 2 3 4 5 6 7 by (simp del: append.simps)
qed

lemma set_lines_text: "c \<in> set (lines_text L) \<Longrightarrow> c = nl \<or> (\<exists>e\<in>set L. c \<in> set e)"
  by (induction L) (auto simp: lines_text_simps)

lemma enum_entries_form:
  assumes "e \<in> set (add_enum_values v [])"
  shows "\<exists>x\<in>set (map strip (split CHR '','' v)). e = ''    '' @ x \<or> e = ''    '' @ x @ '',''"
proof -
  let ?vs = "map strip (split CHR '','' v)"
  have ne: "?vs \<noteq> []" by (simp add: split_not_Nil)
  from assms have "e \<in> set (map (\<lambda>x. ''    '' @ x @ '','') (butlast ?vs) @ [''    '' @ last ?vs])"
    by (simp only: add_enum_values_eq [of v "[]"] append_Nil)
  then consider x where "x \<in> set (butlast ?vs)" "e = ''    '' @ x @ '',''"
    | "e = ''    '' @ last ?vs" by auto
  then show ?thesis
  proof cases
    case 1
    from 1(1) have "x \<in> set ?vs" by (rule in_set_butlastD)
    with 1(2) show ?thesis by blast
  next
    case 2
    have "last ?vs \<in> set ?vs" using ne by (rule last_in_set)
    with 2 show ?thesis by blast
  qed
qed

lemma enum_lines_silent:
  assumes "keyword_pattern P" "keyword_free v"
  shows "silent P (lines_text (add_enum_values v [])) rest"
proof (rule silent_lines)
  fix e z assume "e \<in> set (add_enum_values v [])"
  from enum_entries_form [OF this] obtain x where x: "x \<in> set (map strip (split CHR '','' v))"
    and e: "e = ''    '' @ x \<or> e = ''    '' @ x @ '',''" by blast
  from keyword_free_piece [OF assms(2) x] have "keyword_free x" .
  from indented_line_silent [OF assms(1) this] e show "silent P (e @ [nl]) z" by auto
qed

lemma enum_lines_chars:
  assumes "c \<in> set (lines_text (add_enum_values v []))"
  shows "c \<in> set v \<or> c = nl \<or> c = CHR '' '' \<or> c = CHR '',''"
proof -
  from set_lines_text [OF assms] consider "c = nl"
    | e where "e \<in> set (add_enum_values v [])" "c \<in> set e" by blast
  then show ?thesis
  proof cases
    case 1
    then show ?thesis by simp
  next
    case 2
    from enum_entries_form [OF 2(1)] obtain x where x: "x \<in> set (map strip (split CHR '','' v))"
      and e: "e = ''    '' @ x \<or> e = ''    '' @ x @ '',''" by blast
    from sublist_piece [OF x] have "set x \<subseteq> set v" by (rule set_mono_sublist)
    with e 2(2) show ?thesis by auto
  qed
qed

lemma table_lines_silent:
  assumes "keyword_pattern P" "keyword_free d"
  shows "silent P (lines_text (map (\<lambda>line. ''    '' @ strip line) (split nl (strip d)))) rest"
proof (rule silent_lines)
  fix e z assume "e \<in> set (map (\<lambda>line. ''    '' @ strip line) (split nl (strip d)))"
  then obtain x where x: "x \<in> set (map strip (split nl (strip d)))" and e: "e = ''    '' @ x"
    by auto
  from keyword_free_sublist [OF sublist_strip assms(2)] have "keyword_free (strip d)" .
  from keyword_free_piece [OF this x] have "keyword_free x" .
  from indented_line_silent(1) [OF assms(1) this] e show "silent P (e @ [nl]) z" by simp
qed

lemma table_lines_chars:
  assumes "c \<in> set (lines_text (map (\<lambda>line. ''    '' @ strip line) (split nl (strip d))))"
  shows "c \<in> set d \<or> c = nl \<or> c = CHR '' ''"
proof -
  from set_lines_text [OF assms] consider "c = nl"
    | e where "e \<in> set (map (\<lambda>line. ''    '' @ strip line) (split nl (strip d)))" "c \<in> set e"
    by blast
  then show ?thesis
  proof cases
    case 1
    then show ?thesis by simp
  next
    case 2
    then obtain x where x: "x \<in> set (map strip (split nl (strip d)))" and e: "e = ''    '' @ x"
      by auto
    from sublist_piece [OF x] sublist_strip [of d] have "sublist x d" by (rule sublist_trans)
    then have "set x \<subseteq> set d" by (rule set_mono_sublist)
    with e 2(2) show ?thesis by auto
  qed
qed

text \<open>The text of one statement of each kind, as the emitter lays it out.\<close>

lemma type_text:
  "lines_text (type_entries t) =
     ''CREATE TYPE public.'' @ fst t @ '' AS ENUM ('' @ (nl # lines_text (add_enum_values (snd t) []))
     @ '');'' @ [nl]"
  by (simp add: type_entries_def lines_text_simps)

lemma table_text:
  "lines_text (table_entries t) =
     ''CREATE TABLE public.'' @ fst t @ '' (''
     @ (nl # lines_text (map (\<lambda>line. ''    '' @ strip line) (split nl (strip (snd t)))))
     @ '');'' @ [nl]"
  by (simp add: table_entries_def lines_text_simps)

lemma constraint_text:
  "lines_text (constraint_entries c) =
     ''ALTER TABLE ONLY public.'' @ fst c @ (nl # ''    ADD CONSTRAINT '') @ fst (snd c)
     @ '' '' @ snd (snd c) @ '';'' @ [nl]"
  by (simp add: constraint_entries_def lines_text_simps case_prod_unfold)

lemma type_stmt_silent:
  assumes "keyword_pattern P" "\<And>z. match_at P (''CREATE TYPE public.'' @ z) = None" "ok_type t"
  shows "silent P (lines_text (type_entries t)) rest"
proof -
  note k = assms(1)
  from assms(3) have n: "keyword_free (fst t)" and v: "keyword_free (snd t)"
    by (simp_all add: ok_type_def ok_name_def)
  have 1: "silent P ''CREATE TYPE public.'' z" for z
    using assms(2) [of z]
    by (intro silent_opener [OF k, of _ "''REATE TYPE public.''", simplified]) simp_all
  have 2: "silent P (fst t) ('' AS ENUM ('' @ z)" for z
    using silent_field [OF k n, of "CHR '' ''"] by simp
  have 3: "silent P '' AS ENUM ('' z" for z by (rule silent_calm [OF k]) simp
  have 4: "silent P (nl # lines_text (add_enum_values (snd t) [])) z" for z
    using enum_lines_silent [OF k v, of z] match_at_keyword [OF k, of "nl # _"]
    by (simp add: silent_Cons nl_def)
  have 5: "silent P ('');'' @ [nl]) z" for z by (rule silent_calm [OF k]) (simp add: nl_def)
  show ?thesis
    unfolding type_text silent_append [of P "''CREATE TYPE public.''"] silent_append [of P "fst t"]
      silent_append [of P "'' AS ENUM (''"] silent_append [of P "nl # _"]
    using 1 2 3 4 5 by (simp del: append.simps)
qed

lemma table_stmt_silent:
  assumes "keyword_pattern P" "\<And>z. match_at P (''CREATE TABLE public.'' @ z) = None" "ok_table t"
  shows "silent P (lines_text (table_entries t)) rest"
proof -
  note k = assms(1)
  from assms(3) have n: "keyword_free (fst t)" and v: "keyword_free (snd t)"
    by (simp_all add: ok_table_def ok_name_def)
  have 1: "silent P ''CREATE TABLE public.'' z" for z
    using assms(2) [of z]
    by (intro silent_opener [OF k, of _ "''REATE TABLE public.''", simplified]) simp_all
  have 2: "silent P (fst t) ('' ('' @ z)" for z
    using silent_field [OF k n, of "CHR '' ''"] by simp
  have 3: "silent P '' ('' z" for z by (rule silent_calm [OF k]) simp
  have 4: "silent P (nl # lines_text (map (\<lambda>line. ''    '' @ strip line)
                                      (split nl (strip (snd t))))) z" for z
    using table_lines_silent [OF k v, of z] match_at_keyword [OF k, of "nl # _"]
    by (simp add: silent_Cons nl_def)
  have 5: "silent P ('');'' @ [nl]) z" for z by (rule silent_calm [OF k]) (simp add: nl_def)
  show ?thesis
    unfolding table_text silent_append [of P "''CREATE TABLE public.''"] silent_append [of P "fst t"]
      silent_append [of P "'' (''"] silent_append [of P "nl # _"]
    using 1 2 3 4 5 by (simp del: append.simps)
qed

lemma groups_of_stmt:
  assumes "keyword_pattern P" "match_at P (w @ nl # rest) = Some (g, nl # rest)" "w \<noteq> []"
  shows "groups_of P (w @ nl # rest) = g # groups_of P rest"
proof -
  from assms(3) have "length (nl # rest) < length (w @ nl # rest)" by (cases w) simp_all
  from groups_of_Some [OF assms(2) this] have "groups_of P (w @ nl # rest) = g # groups_of P (nl # rest)" .
  moreover have "match_at P (nl # rest) = None"
    by (rule match_at_keyword [OF assms(1)]) (simp_all add: nl_def)
  ultimately show ?thesis by (simp add: groups_of_None)
qed

lemma silent_concat:
  "(\<And>x z. x \<in> set xs \<Longrightarrow> silent P (f x) z) \<Longrightarrow> silent P (concat (map f xs)) rest"
  by (induction xs) (simp_all add: silent_Nil silent_append)

lemma groups_of_concat:
  "(\<And>x z. x \<in> set xs \<Longrightarrow> groups_of P (f x @ z) = g x # groups_of P z) \<Longrightarrow>
   groups_of P (concat (map f xs) @ rest) = map g xs @ groups_of P rest"
  by (induction xs) simp_all

lemma lines_text_block:
  "lines_text (hdr # concat (map entries xs) @ [[]])
     = hdr @ nl # concat (map (\<lambda>x. lines_text (entries x)) xs) @ [nl]"
proof -
  have "lines_text (concat (map entries xs)) = concat (map (\<lambda>x. lines_text (entries x)) xs)"
    by (induction xs) (simp_all add: lines_text_simps)
  then show ?thesis by (simp add: lines_text_simps)
qed

lemma block_silent:
  assumes "keyword_pattern P" "calm hdr"
    and "\<And>x z. x \<in> set xs \<Longrightarrow> silent P (lines_text (entries x)) z"
  shows "silent P (lines_text (hdr # concat (map entries xs) @ [[]])) rest"
proof -
  have 1: "silent P hdr z" for z by (rule silent_calm [OF assms(1,2)])
  have 2: "silent P [nl] z" for z by (rule silent_calm [OF assms(1)]) (simp add: nl_def)
  have 3: "silent P (concat (map (\<lambda>x. lines_text (entries x)) xs)) z" for z
    by (rule silent_concat) (rule assms(3))
  have "silent P (hdr @ [nl] @ concat (map (\<lambda>x. lines_text (entries x)) xs) @ [nl]) rest"
    unfolding silent_append using 1 2 3 by simp
  then show ?thesis by (simp add: lines_text_block)
qed

lemma block_groups:
  assumes "keyword_pattern P" "calm hdr"
    and "\<And>x z. x \<in> set xs \<Longrightarrow> groups_of P (lines_text (entries x) @ z) = g x # groups_of P z"
  shows "groups_of P (lines_text (hdr # concat (map entries xs) @ [[]]) @ rest)
         = map g xs @ groups_of P rest"
proof -
  have 1: "silent P hdr z" for z by (rule silent_calm [OF assms(1,2)])
  have 2: "silent P [nl] z" for z by (rule silent_calm [OF assms(1)]) (simp add: nl_def)
  have "groups_of P (hdr @ ([nl] @ concat (map (\<lambda>x. lines_text (entries x)) xs) @ [nl] @ rest))
      = groups_of P ([nl] @ concat (map (\<lambda>x. lines_text (entries x)) xs) @ [nl] @ rest)"
    by (rule groups_of_silent [OF 1])
  also have "\<dots> = groups_of P (concat (map (\<lambda>x. lines_text (entries x)) xs) @ [nl] @ rest)"
    by (rule groups_of_silent [OF 2])
  also have "\<dots> = map g xs @ groups_of P ([nl] @ rest)"
    by (rule groups_of_concat) (rule assms(3))
  also have "groups_of P ([nl] @ rest) = groups_of P rest"
    by (rule groups_of_silent [OF 2])
  finally show ?thesis by (simp add: lines_text_block)
qed

text \<open>What re-extraction finds in the text of one emitted statement of its own kind.\<close>

lemma extension_stmt_groups:
  assumes "ok_name n"
  shows "groups_of extension_pattern
           (lines_text [''CREATE EXTENSION IF NOT EXISTS '' @ n @ '' WITH SCHEMA public;''] @ z)
         = [n] # groups_of extension_pattern z"
proof -
  have k: "keyword_pattern extension_pattern"
    by (simp add: keyword_pattern_def extension_pattern_def)
  from assms have w: "wordy n" by (simp add: ok_name_def)
  from groups_of_stmt [OF k, of "''CREATE EXTENSION IF NOT EXISTS '' @ n @ '' WITH SCHEMA public;''"
      z "[n]"] extension_match [OF w, of "nl # z"]
  show ?thesis by (simp add: lines_text_simps)
qed

lemma type_stmt_groups:
  assumes "ok_type t"
  shows "groups_of type_pattern (lines_text (type_entries t) @ z)
         = [fst t, nl # lines_text (add_enum_values (snd t) [])] # groups_of type_pattern z"
proof -
  have k: "keyword_pattern type_pattern"
    by (simp add: keyword_pattern_def type_pattern_def)
  let ?body = "nl # lines_text (add_enum_values (snd t) [])"
  from assms have w: "wordy (fst t)" and v: "CHR '')'' \<notin> set (snd t)"
    by (simp_all add: ok_type_def ok_name_def)
  have b: "CHR '')'' \<notin> set ?body"
    using enum_lines_chars [of "CHR '')''" "snd t"] v by (auto simp: nl_def)
  from groups_of_stmt [OF k, of "''CREATE TYPE public.'' @ fst t @ '' AS ENUM ('' @ ?body @ '');''"
      z "[fst t, ?body]"] type_match [OF w _ b, of "nl # z"]
  show ?thesis by (simp add: type_text)
qed

lemma table_stmt_groups:
  assumes "ok_table t"
  shows "groups_of table_pattern (lines_text (table_entries t) @ z)
         = [fst t, nl # lines_text (map (\<lambda>line. ''    '' @ strip line) (split nl (strip (snd t))))]
           # groups_of table_pattern z"
proof -
  have k: "keyword_pattern table_pattern"
    by (simp add: keyword_pattern_def table_pattern_def)
  let ?body = "nl # lines_text (map (\<lambda>line. ''    '' @ strip line) (split nl (strip (snd t))))"
  from assms have w: "wordy (fst t)" and v: "CHR '';'' \<notin> set (snd t)"
    by (simp_all add: ok_table_def ok_name_def)
  have b: "CHR '';'' \<notin> set ?body"
    using table_lines_chars [of "CHR '';''" "snd t"] v by (auto simp: nl_def)
  from groups_of_stmt [OF k, of "''CREATE TABLE public.'' @ fst t @ '' ('' @ ?body @ '');''"
      z "[fst t, ?body]"] table_match [OF w _ b, of "nl # z"]
  show ?thesis by (simp add: table_text)
qed

lemma constraint_stmt_groups:
  assumes "ok_constraint c"
  shows "groups_of constraint_pattern (lines_text (constraint_entries c) @ z)
         = [fst c, fst (snd c), snd (snd c)] # groups_of constraint_pattern z"
proof -
  have k: "keyword_pattern constraint_pattern"
    by (simp add: keyword_pattern_def constraint_pattern_def)
  from assms have w: "wordy (fst c)" "wordy (fst (snd c))" "snd (snd c) \<noteq> []"
    "CHR '';'' \<notin> set (snd (snd c))"
    by (simp_all add: ok_constraint_def ok_name_def ok_text_def)
  from groups_of_stmt [OF k, of "''ALTER TABLE ONLY public.'' @ fst c
        @ nl # ''    ADD CONSTRAINT '' @ fst (snd c) @ '' '' @ snd (snd c) @ '';''"
      z "[fst c, fst (snd c), snd (snd c)]"]
    constraint_match [OF w, of "nl # z"]
  show ?thesis by (simp add: constraint_text)
qed

lemma trigger_stmt_groups:
  assumes "ok_trigger t"
  shows "groups_of trigger_pattern
           (lines_text [''CREATE TRIGGER '' @ fst t @ '' '' @ snd t @ '';''] @ z)
         = [fst t, snd t] # groups_of trigger_pattern z"
proof -
  have k: "keyword_pattern trigger_pattern"
    by (simp add: keyword_pattern_def trigger_pattern_def)
  from assms have w: "wordy (fst t)" "snd t \<noteq> []" "CHR '';'' \<notin> set (snd t)"
    by (simp_all add: ok_trigger_def ok_name_def ok_text_def)
  from groups_of_stmt [OF k, of "''CREATE TRIGGER '' @ fst t @ '' '' @ snd t @ '';''"
      z "[fst t, snd t]"] trigger_match [OF w, of "nl # z"]
  show ?thesis by (simp add: lines_text_simps)
qed

lemma calm_headers:
  "calm ''-- Extensions''" "calm ''-- Custom Types (ENUMs)''" "calm ''-- Tables''"
  "calm ''-- Constraints''" "calm ''-- Triggers''"
  by simp_all

lemma extension_block_form:
  "extension_block st =
     (if extensions st = [] then []
      else ''-- Extensions'' #
           concat (map (\<lambda>ext. [''CREATE EXTENSION IF NOT EXISTS '' @ ext @ '' WITH SCHEMA public;''])
                     (extensions st)) @ [[]])"
  by (simp add: extension_block_def)

lemma trigger_block_form:
  "trigger_block st =
     (if triggers st = [] then []
      else ''-- Triggers'' #
           concat (map (\<lambda>t. [''CREATE TRIGGER '' @ fst t @ '' '' @ snd t @ '';'']) (triggers st))
           @ [[]])"
  by (simp add: trigger_block_def case_prod_unfold)

lemma extension_block_other:
  assumes "keyword_pattern P"
    and "\<And>z. match_at P (''CREATE EXTENSION IF NOT EXISTS '' @ z) = None"
    and "ok_statements st"
  shows "groups_of P (lines_text (extension_block st) @ z) = groups_of P z"
proof (cases "extensions st = []")
  case True
  then show ?thesis by (simp add: extension_block_def lines_text_simps)
next
  case False
  then have b: "extension_block st = ''-- Extensions'' #
      concat (map (\<lambda>ext. [''CREATE EXTENSION IF NOT EXISTS '' @ ext @ '' WITH SCHEMA public;''])
                (extensions st)) @ [[]]"
    by (simp add: extension_block_form)
  have "silent P (lines_text (extension_block st)) z"
    unfolding b
  proof (rule block_silent [OF assms(1) calm_headers(1)])
    fix x y assume "x \<in> set (extensions st)"
    with assms(3) have "keyword_free x" by (auto simp: ok_statements_def list_all_iff ok_name_def)
    from extension_stmt_silent [OF assms(1,2) this, of y]
    show "silent P (lines_text [''CREATE EXTENSION IF NOT EXISTS '' @ x @ '' WITH SCHEMA public;'']) y"
      by (simp add: lines_text_simps)
  qed
  then show ?thesis by (rule groups_of_silent)
qed

lemma extension_block_own:
  assumes "ok_statements st"
  shows "groups_of extension_pattern (lines_text (extension_block st) @ z)
         = map (\<lambda>n. [n]) (extensions st) @ groups_of extension_pattern z"
proof (cases "extensions st = []")
  case True
  then show ?thesis by (simp add: extension_block_def lines_text_simps)
next
  case False
  then have b: "extension_block st = ''-- Extensions'' #
      concat (map (\<lambda>ext. [''CREATE EXTENSION IF NOT EXISTS '' @ ext @ '' WITH SCHEMA public;''])
                (extensions st)) @ [[]]"
    by (simp add: extension_block_form)
  have k: "keyword_pattern extension_pattern"
    by (simp add: keyword_pattern_def extension_pattern_def)
  show ?thesis
    unfolding b
  proof (rule block_groups [OF k calm_headers(1)])
    fix x y assume "x \<in> set (extensions st)"
    with assms have "ok_name x" by (auto simp: ok_statements_def list_all_iff)
    then show "groups_of extension_pattern
        (lines_text [''CREATE EXTENSION IF NOT EXISTS '' @ x @ '' WITH SCHEMA public;''] @ y)
        = [x] # groups_of extension_pattern y"
      by (rule extension_stmt_groups)
  qed
qed

lemma type_block_other:
  assumes "keyword_pattern P"
    and "\<And>z. match_at P (''CREATE TYPE public.'' @ z) = None"
    and "ok_statements st"
  shows "groups_of P (lines_text (type_block st) @ z) = groups_of P z"
proof (cases "types st = []")
  case True
  then show ?thesis by (simp add: type_block_def lines_text_simps)
next
  case False
  have "silent P (lines_text (type_block st)) z"
    unfolding type_block_def using False
    apply simp
    apply (rule block_silent [OF assms(1) calm_headers(2)])
    apply (rule type_stmt_silent [OF assms(1,2)])
    using assms(3) by (auto simp: ok_statements_def list_all_iff)
  then show ?thesis by (rule groups_of_silent)
qed

lemma type_block_own:
  assumes "ok_statements st"
  shows "groups_of type_pattern (lines_text (type_block st) @ z)
         = map (\<lambda>t. [fst t, nl # lines_text (add_enum_values (snd t) [])]) (types st)
           @ groups_of type_pattern z"
proof (cases "types st = []")
  case True
  then show ?thesis by (simp add: type_block_def lines_text_simps)
next
  case False
  have k: "keyword_pattern type_pattern"
    by (simp add: keyword_pattern_def type_pattern_def)
  show ?thesis
    unfolding type_block_def using False
    apply simp
    apply (rule block_groups [OF k calm_headers(2)])
    apply (rule type_stmt_groups)
    using assms by (auto simp: ok_statements_def list_all_iff)
qed

lemma table_block_other:
  assumes "keyword_pattern P"
    and "\<And>z. match_at P (''CREATE TABLE public.'' @ z) = None"
    and "ok_statements st"
  shows "groups_of P (lines_text (table_block st) @ z) = groups_of P z"
proof (cases "tables st = []")
  case True
  then show ?thesis by (simp add: table_block_def lines_text_simps)
next
  case False
  have "silent P (lines_text (table_block st)) z"
    unfolding table_block_def using False
    apply simp
    apply (rule block_silent [OF assms(1) calm_headers(3)])
    apply (rule table_stmt_silent [OF assms(1,2)])
    using assms(3) by (auto simp: ok_statements_def list_all_iff)
  then show ?thesis by (rule groups_of_silent)
qed

lemma table_block_own:
  assumes "ok_statements st"
  shows "groups_of table_pattern (lines_text (table_block st) @ z)
         = map (\<lambda>t. [fst t, nl # lines_text (map (\<lambda>line. ''    '' @ strip line)
                                               (split nl (strip (snd t))))]) (tables st)
           @ groups_of table_pattern z"
proof (cases "tables st = []")
  case True
  then show ?thesis by (simp add: table_block_def lines_text_simps)
next
  case False
  then have b: "table_block st = ''-- Tables'' # concat (map table_entries (tables st)) @ [[]]"
    by (simp add: table_block_def)
  have k: "keyword_pattern table_pattern"
    by (simp add: keyword_pattern_def table_pattern_def)
  show ?thesis
    unfolding b
  proof (rule block_groups [OF k calm_headers(3)])
    fix x y assume "x \<in> set (tables st)"
    with assms have "ok_table x" by (auto simp: ok_statements_def list_all_iff)
    then show "groups_of table_pattern (lines_text (table_entries x) @ y)
        = [fst x, nl # lines_text (map (\<lambda>line. ''    '' @ strip line)
                                     (split nl (strip (snd x))))]
          # groups_of table_pattern y"
      by (rule table_stmt_groups)
  qed
qed

lemma constraint_block_other:
  assumes "keyword_pattern P"
    and "\<And>z. match_at P (''ALTER TABLE ONLY public.'' @ z) = None"
    and "ok_statements st"
  shows "groups_of P (lines_text (constraint_block st) @ z) = groups_of P z"
proof (cases "constraints st = []")
  case True
  then show ?thesis by (simp add: constraint_block_def lines_text_simps)
next
  case False
  have "silent P (lines_text (constraint_block st)) z"
    unfolding constraint_block_def using False
    apply simp
    apply (rule block_silent [OF assms(1) calm_headers(4)])
    apply (simp only: constraint_text)
    apply (rule constraint_stmt_silent [OF assms(1,2)])
    using assms(3)
    by (auto simp: ok_statements_def list_all_iff ok_constraint_def ok_name_def ok_text_def)
  then show ?thesis by (rule groups_of_silent)
qed

lemma constraint_block_own:
  assumes "ok_statements st"
  shows "groups_of constraint_pattern (lines_text (constraint_block st) @ z)
         = map (\<lambda>c. [fst c, fst (snd c), snd (snd c)]) (constraints st)
           @ groups_of constraint_pattern z"
proof (cases "constraints st = []")
  case True
  then show ?thesis by (simp add: constraint_block_def lines_text_simps)
next
  case False
  have k: "keyword_pattern constraint_pattern"
    by (simp add: keyword_pattern_def constraint_pattern_def)
  show ?thesis
    unfolding constraint_block_def using False
    apply simp
    apply (rule block_groups [OF k calm_headers(4)])
    apply (rule constraint_stmt_groups)
    using assms by (auto simp: ok_statements_def list_all_iff)
qed

lemma trigger_block_other:
  assumes "keyword_pattern P"
    and "\<And>z. match_at P (''CREATE TRIGGER '' @ z) = None"
    and "ok_statements st"
  shows "groups_of P (lines_text (trigger_block st) @ z) = groups_of P z"
proof (cases "triggers st = []")
  case True
  then show ?thesis by (simp add: trigger_block_def lines_text_simps)
next
  case False
  then have b: "trigger_block st = ''-- Triggers'' #
      concat (map (\<lambda>t. [''CREATE TRIGGER '' @ fst t @ '' '' @ snd t @ '';'']) (triggers st)) @ [[]]"
    by (simp add: trigger_block_form)
  have "silent P (lines_text (trigger_block st)) z"
    unfolding b
  proof (rule block_silent [OF assms(1) calm_headers(5)])
    fix x y assume "x \<in> set (triggers st)"
    with assms(3) have "keyword_free (fst x)" "keyword_free (snd x)"
      by (auto simp: ok_statements_def list_all_iff ok_trigger_def ok_name_def ok_text_def)
    from trigger_stmt_silent [OF assms(1,2) this, of y]
    show "silent P (lines_text [''CREATE TRIGGER '' @ fst x @ '' '' @ snd x @ '';'']) y"
      by (simp add: lines_text_simps)
  qed
  then show ?thesis by (rule groups_of_silent)
qed

lemma trigger_block_own:
  assumes "ok_statements st"
  shows "groups_of trigger_pattern (lines_text (trigger_block st) @ z)
         = map (\<lambda>t. [fst t, snd t]) (triggers st) @ groups_of trigger_pattern z"
proof (cases "triggers st = []")
  case True
  then show ?thesis by (simp add: trigger_block_def lines_text_simps)
next
  case False
  then have b: "trigger_block st = ''-- Triggers'' #
      concat (map (\<lambda>t. [''CREATE TRIGGER '' @ fst t @ '' '' @ snd t @ '';'']) (triggers st)) @ [[]]"
    by (simp add: trigger_block_form)
  have k: "keyword_pattern trigger_pattern"
    by (simp add: keyword_pattern_def trigger_pattern_def)
  show ?thesis
    unfolding b
  proof (rule block_groups [OF k calm_headers(5)])
    fix x y assume "x \<in> set (triggers st)"
    with assms have "ok_trigger x" by (auto simp: ok_statements_def list_all_iff)
    then show "groups_of trigger_pattern
        (lines_text [''CREATE TRIGGER '' @ fst x @ '' '' @ snd x @ '';''] @ y)
        = [fst x, snd x] # groups_of trigger_pattern y"
      by (rule trigger_stmt_groups)
  qed
qed

lemma spans_class: "(u, r) \<in> set (spans P s) \<Longrightarrow> list_all P u"
  by (induction s arbitrary: u) (auto split: if_splits)

lemma ms_captures_ok: "(g, r) \<in> set (ms q s) \<Longrightarrow> captures_ok q g"
proof (induction q arbitrary: s g)
  case Nil
  then show ?case by simp
next
  case (Cons i q)
  show ?case
  proof (cases i)
    case (Plain a)
    with Cons.prems obtain r0 where "(g, r) \<in> set (ms q r0)" by auto
    with Cons.IH Plain show ?thesis by simp
  next
    case (Group a)
    with Cons.prems obtain u r0 g0 where a: "(u, r0) \<in> set (atom_ms a s)"
      and m: "(g0, r) \<in> set (ms q r0)" and g: "g = u # g0" by auto
    from Cons.IH [OF m] have ok: "captures_ok q g0" .
    show ?thesis
    proof (cases a)
      case (Lit l)
      with a have "u = l" by (auto split: if_splits)
      with ok g Group Lit show ?thesis by simp
    next
      case (Rep c n)
      with a have "list_all (in_cls c) u" "n \<le> length u" by (auto dest: spans_class)
      with ok g Group Rep show ?thesis by simp
    qed
  next
    case (Optional as)
    with Cons.prems obtain r0 where "(g, r) \<in> set (ms q r0)" by auto
    with Cons.IH Optional show ?thesis by simp
  qed
qed

lemma finditer_captures_ok: "m \<in> set (finditer q s) \<Longrightarrow> captures_ok q (snd m)"
proof -
  assume "m \<in> set (finditer q s)"
  then obtain r where "match_at q (drop (fst m - 0) s) = Some (snd m, r)"
    unfolding finditer_def using finditer_from_match by blast
  then have "(snd m, r) \<in> set (ms q (drop (fst m - 0) s))"
    by (auto simp: match_at_def split: list.splits)
  then show ?thesis by (rule ms_captures_ok)
qed

lemma not_in_strip: "c \<notin> set s \<Longrightarrow> c \<notin> set (strip s)"
  using set_strip by blast

lemma extracted_ok:
  assumes "extract_ddl_statements content = Inr st" and "clean st"
  shows "ok_statements st"
proof -
  from assms(1) have ix: "finditer index_pattern content = []"
    and st: "st = \<lparr>extensions = map (\<lambda>m. snd m ! 0) (finditer extension_pattern content),
        types = map (\<lambda>m. (snd m ! 0, strip (snd m ! 1))) (finditer type_pattern content),
        tables = map (\<lambda>m. (snd m ! 0, strip (snd m ! 1)))
                   (filter (\<lambda>m. snd m ! 0 \<noteq> diesel_table) (finditer table_pattern content)),
        indexes = [],
        constraints = map (\<lambda>m. (snd m ! 0, snd m ! 1, snd m ! 2))
                        (finditer constraint_pattern content),
        triggers = map (\<lambda>m. (snd m ! 0, snd m ! 1)) (finditer trigger_pattern content),
        functions' = map (\<lambda>m. (snd m ! 0, snd m ! 1)) (finditer function_pattern content)\<rparr>"
    by (auto simp: extract_ddl_statements_eq split: if_splits)
  have e: "wordy n" if "n \<in> set (extensions st)" for n
  proof -
    from that st obtain m where m: "m \<in> set (finditer extension_pattern content)"
      and n: "n = snd m ! 0" by auto
    from finditer_captures_ok [OF m] n show ?thesis
      by (cases "snd m") (auto simp: extension_pattern_def wordy_def list_all_in_cls)
  qed
  have t: "wordy (fst x) \<and> CHR '')'' \<notin> set (snd x)" if "x \<in> set (types st)" for x
  proof -
    from that st obtain m where m: "m \<in> set (finditer type_pattern content)"
      and x: "x = (snd m ! 0, strip (snd m ! 1))" by auto
    from finditer_captures_ok [OF m] obtain a b where "snd m = [a, b]" "wordy a"
      "CHR '')'' \<notin> set b"
      by (cases "snd m"; cases "tl (snd m)")
         (auto simp: type_pattern_def wordy_def list_all_in_cls Suc_le_eq split: list.splits)
    with x show ?thesis by (simp add: not_in_strip)
  qed
  have ta: "wordy (fst x) \<and> CHR '';'' \<notin> set (snd x)" if "x \<in> set (tables st)" for x
  proof -
    from that st obtain m where m: "m \<in> set (finditer table_pattern content)"
      and x: "x = (snd m ! 0, strip (snd m ! 1))" by auto
    from finditer_captures_ok [OF m] obtain a b where "snd m = [a, b]" "wordy a"
      "CHR '';'' \<notin> set b"
      by (cases "snd m"; cases "tl (snd m)")
         (auto simp: table_pattern_def wordy_def list_all_in_cls Suc_le_eq split: list.splits)
    with x show ?thesis by (simp add: not_in_strip)
  qed
  have c: "wordy (fst x) \<and> wordy (fst (snd x)) \<and> snd (snd x) \<noteq> []
           \<and> CHR '';'' \<notin> set (snd (snd x))" if "x \<in> set (constraints st)" for x
  proof -
    from that st obtain m where m: "m \<in> set (finditer constraint_pattern content)"
      and x: "x = (snd m ! 0, snd m ! 1, snd m ! 2)" by auto
    from finditer_captures_ok [OF m] obtain a b d where "snd m = [a, b, d]" "wordy a" "wordy b"
      "d \<noteq> []" "CHR '';'' \<notin> set d"
      by (cases "snd m"; cases "tl (snd m)"; cases "tl (tl (snd m))")
         (auto simp: constraint_pattern_def wordy_def list_all_in_cls Suc_le_eq split: list.splits)
    with x show ?thesis by simp
  qed
  have tr: "wordy (fst x) \<and> snd x \<noteq> [] \<and> CHR '';'' \<notin> set (snd x)"
    if "x \<in> set (triggers st)" for x
  proof -
    from that st obtain m where m: "m \<in> set (finditer trigger_pattern content)"
      and x: "x = (snd m ! 0, snd m ! 1)" by auto
    from finditer_captures_ok [OF m] obtain a b where "snd m = [a, b]" "wordy a"
      "b \<noteq> []" "CHR '';'' \<notin> set b"
      by (cases "snd m"; cases "tl (snd m)")
         (auto simp: trigger_pattern_def wordy_def list_all_in_cls Suc_le_eq split: list.splits)
    with x show ?thesis by simp
  qed
  have i: "indexes st = []" by (subst st) simp
  from assms(2) e t ta c tr i show ?thesis
    unfolding ok_statements_def clean_def list_all_iff ok_name_def ok_type_def ok_table_def
      ok_constraint_def ok_trigger_def ok_text_def
    by (auto simp: case_prod_unfold)
qed

lemma lines_text_migration_sql:
  "lines_text (migration_sql st) =
     lines_text header_block @ lines_text (extension_block st) @ lines_text (type_block st)
     @ lines_text (table_block st) @ lines_text (constraint_block st)
     @ lines_text (index_block st) @ lines_text (trigger_block st)"
  by (simp add: migration_sql_blocks lines_text_simps)

lemma header_silent: "keyword_pattern P \<Longrightarrow> silent P (lines_text header_block) z"
  by (rule silent_calm) (simp_all add: header_block_def lines_text_simps nl_def)

lemma whole_groups:
  assumes "keyword_pattern P" "ok_statements st"
    and "\<And>z. groups_of P (lines_text (extension_block st) @ z) = gE @ groups_of P z"
    and "\<And>z. groups_of P (lines_text (type_block st) @ z) = gT @ groups_of P z"
    and "\<And>z. groups_of P (lines_text (table_block st) @ z) = gB @ groups_of P z"
    and "\<And>z. groups_of P (lines_text (constraint_block st) @ z) = gC @ groups_of P z"
    and "\<And>z. groups_of P (lines_text (trigger_block st) @ z) = gR @ groups_of P z"
  shows "groups_of P (lines_text (migration_sql st)) = gE @ gT @ gB @ gC @ gR"
proof -
  from assms(2) have i: "lines_text (index_block st) = []"
    by (simp add: ok_statements_def index_block_def lines_text_simps)
  have "groups_of P (lines_text (trigger_block st)) = gR"
    using assms(7) [of "[]"] by (simp add: groups_of_Nil [OF assms(1)])
  then show ?thesis
    unfolding lines_text_migration_sql i append_Nil
    by (simp only: groups_of_silent [OF header_silent [OF assms(1)]] assms(3-6))
qed

lemma generated_groups:
  assumes "ends_with_semicolon P"
  shows "groups_of P (generate_consolidated_migration st) = groups_of P (lines_text (migration_sql st))"
proof -
  have "migration_sql st \<noteq> []" by (simp add: migration_sql_blocks header_block_def)
  from join_lines_text [OF this]
  have "lines_text (migration_sql st) = generate_consolidated_migration st @ [nl]"
    by (simp add: generate_consolidated_migration_def)
  moreover have "finditer P (generate_consolidated_migration st @ [nl])
      = finditer P (generate_consolidated_migration st)"
    by (rule finditer_append [OF assms]) (simp add: nl_def)
  ultimately show ?thesis by (simp add: groups_of_def)
qed

lemma keyword_patterns:
  "keyword_pattern extension_pattern" "keyword_pattern type_pattern"
  "keyword_pattern table_pattern" "keyword_pattern index_pattern"
  "keyword_pattern constraint_pattern" "keyword_pattern trigger_pattern"
  "keyword_pattern function_pattern"
  by (simp_all add: keyword_pattern_def extension_pattern_def type_pattern_def table_pattern_def
      index_pattern_def constraint_pattern_def trigger_pattern_def function_pattern_def)

lemma opener_mismatch:
  "match_at (Plain (Lit l) # q) s = None" if "\<not> prefix l s"
  using that by (simp add: match_at_def)

lemma regenerated_extensions:
  assumes "ok_statements st"
  shows "groups_of extension_pattern (generate_consolidated_migration st)
         = map (\<lambda>n. [n]) (extensions st)"
proof -
  note k = keyword_patterns(1)
  have m_type: "match_at extension_pattern (''CREATE TYPE public.'' @ z) = None" for z
    by (simp add: extension_pattern_def opener_mismatch)
  have m_table: "match_at extension_pattern (''CREATE TABLE public.'' @ z) = None" for z
    by (simp add: extension_pattern_def opener_mismatch)
  have m_constraint: "match_at extension_pattern (''ALTER TABLE ONLY public.'' @ z) = None" for z
    by (simp add: extension_pattern_def opener_mismatch)
  have m_trigger: "match_at extension_pattern (''CREATE TRIGGER '' @ z) = None" for z
    by (simp add: extension_pattern_def opener_mismatch)
  have "groups_of extension_pattern (lines_text (migration_sql st))
      = (map (\<lambda>n. [n]) (extensions st))
        @ ([])
        @ ([])
        @ ([])
        @ ([])"
  proof (rule whole_groups [OF k assms])
    show "groups_of extension_pattern (lines_text (extension_block st) @ z) = (map (\<lambda>n. [n]) (extensions st)) @ groups_of extension_pattern z" for z
      by (rule extension_block_own [OF assms])
    show "groups_of extension_pattern (lines_text (type_block st) @ z) = [] @ groups_of extension_pattern z" for z
      using type_block_other [OF k m_type assms, of z] by simp
    show "groups_of extension_pattern (lines_text (table_block st) @ z) = [] @ groups_of extension_pattern z" for z
      using table_block_other [OF k m_table assms, of z] by simp
    show "groups_of extension_pattern (lines_text (constraint_block st) @ z) = [] @ groups_of extension_pattern z" for z
      using constraint_block_other [OF k m_constraint assms, of z] by simp
    show "groups_of extension_pattern (lines_text (trigger_block st) @ z) = [] @ groups_of extension_pattern z" for z
      using trigger_block_other [OF k m_trigger assms, of z] by simp
  qed
  then show ?thesis by (simp add: generated_groups patterns_end_with_semicolon)
qed

lemma regenerated_types:
  assumes "ok_statements st"
  shows "groups_of type_pattern (generate_consolidated_migration st)
         = map (\<lambda>t. [fst t, nl # lines_text (add_enum_values (snd t) [])]) (types st)"
proof -
  note k = keyword_patterns(2)
  have m_extension: "match_at type_pattern (''CREATE EXTENSION IF NOT EXISTS '' @ z) = None" for z
    by (simp add: type_pattern_def opener_mismatch)
  have m_table: "match_at type_pattern (''CREATE TABLE public.'' @ z) = None" for z
    by (simp add: type_pattern_def opener_mismatch)
  have m_constraint: "match_at type_pattern (''ALTER TABLE ONLY public.'' @ z) = None" for z
    by (simp add: type_pattern_def opener_mismatch)
  have m_trigger: "match_at type_pattern (''CREATE TRIGGER '' @ z) = None" for z
    by (simp add: type_pattern_def opener_mismatch)
  have "groups_of type_pattern (lines_text (migration_sql st))
      = ([])
        @ (map (\<lambda>t. [fst t, nl # lines_text (add_enum_values (snd t) [])]) (types st))
        @ ([])
        @ ([])
        @ ([])"
  proof (rule whole_groups [OF k assms])
    show "groups_of type_pattern (lines_text (extension_block st) @ z) = [] @ groups_of type_pattern z" for z
      using extension_block_other [OF k m_extension assms, of z] by simp
    show "groups_of type_pattern (lines_text (type_block st) @ z) = (map (\<lambda>t. [fst t, nl # lines_text (add_enum_values (snd t) [])]) (types st)) @ groups_of type_pattern z" for z
      by (rule type_block_own [OF assms])
    show "groups_of type_pattern (lines_text (table_block st) @ z) = [] @ groups_of type_pattern z" for z
      using table_block_other [OF k m_table assms, of z] by simp
    show "groups_of type_pattern (lines_text (constraint_block st) @ z) = [] @ groups_of type_pattern z" for z
      using constraint_block_other [OF k m_constraint assms, of z] by simp
    show "groups_of type_pattern (lines_text (trigger_block st) @ z) = [] @ groups_of type_pattern z" for z
      using trigger_block_other [OF k m_trigger assms, of z] by simp
  qed
  then show ?thesis by (simp add: generated_groups patterns_end_with_semicolon)
qed

lemma regenerated_tables:
  assumes "ok_statements st"
  shows "groups_of table_pattern (generate_consolidated_migration st)
         = map (\<lambda>t. [fst t, nl # lines_text (map (\<lambda>line. ''    '' @ strip line)
                                               (split nl (strip (snd t))))]) (tables st)"
proof -
  note k = keyword_patterns(3)
  have m_extension: "match_at table_pattern (''CREATE EXTENSION IF NOT EXISTS '' @ z) = None" for z
    by (simp add: table_pattern_def opener_mismatch)
  have m_type: "match_at table_pattern (''CREATE TYPE public.'' @ z) = None" for z
    by (simp add: table_pattern_def opener_mismatch)
  have m_constraint: "match_at table_pattern (''ALTER TABLE ONLY public.'' @ z) = None" for z
    by (simp add: table_pattern_def opener_mismatch)
  have m_trigger: "match_at table_pattern (''CREATE TRIGGER '' @ z) = None" for z
    by (simp add: table_pattern_def opener_mismatch)
  have "groups_of table_pattern (lines_text (migration_sql st))
      = ([])
        @ ([])
        @ (map (\<lambda>t. [fst t, nl # lines_text (map (\<lambda>line. ''    '' @ strip line)
                                               (split nl (strip (snd t))))]) (tables st))
        @ ([])
        @ ([])"
  proof (rule whole_groups [OF k assms])
    show "groups_of table_pattern (lines_text (extension_block st) @ z) = [] @ groups_of table_pattern z" for z
      using extension_block_other [OF k m_extension assms, of z] by simp
    show "groups_of table_pattern (lines_text (type_block st) @ z) = [] @ groups_of table_pattern z" for z
      using type_block_other [OF k m_type assms, of z] by simp
    show "groups_of table_pattern (lines_text (table_block st) @ z) = (map (\<lambda>t. [fst t, nl # lines_text (map (\<lambda>line. ''    '' @ strip line)
                                               (split nl (strip (snd t))))]) (tables st)) @ groups_of table_pattern z" for z
      by (rule table_block_own [OF assms])
    show "groups_of table_pattern (lines_text (constraint_block st) @ z) = [] @ groups_of table_pattern z" for z
      using constraint_block_other [OF k m_constraint assms, of z] by simp
    show "groups_of table_pattern (lines_text (trigger_block st) @ z) = [] @ groups_of table_pattern z" for z
      using trigger_block_other [OF k m_trigger assms, of z] by simp
  qed
  then show ?thesis by (simp add: generated_groups patterns_end_with_semicolon)
qed

lemma regenerated_constraints:
  assumes "ok_statements st"
  shows "groups_of constraint_pattern (generate_consolidated_migration st)
         = map (\<lambda>c. [fst c, fst (snd c), snd (snd c)]) (constraints st)"
proof -
  note k = keyword_patterns(5)
  have m_extension: "match_at constraint_pattern (''CREATE EXTENSION IF NOT EXISTS '' @ z) = None" for z
    by (simp add: constraint_pattern_def opener_mismatch)
  have m_type: "match_at constraint_pattern (''CREATE TYPE public.'' @ z) = None" for z
    by (simp add: constraint_pattern_def opener_mismatch)
  have m_table: "match_at constraint_pattern (''CREATE TABLE public.'' @ z) = None" for z
    by (simp add: constraint_pattern_def opener_mismatch)
  have m_trigger: "match_at constraint_pattern (''CREATE TRIGGER '' @ z) = None" for z
    by (simp add: constraint_pattern_def opener_mismatch)
  have "groups_of constraint_pattern (lines_text (migration_sql st))
      = ([])
        @ ([])
        @ ([])
        @ (map (\<lambda>c. [fst c, fst (snd c), snd (snd c)]) (constraints st))
        @ ([])"
  proof (rule whole_groups [OF k assms])
    show "groups_of constraint_pattern (lines_text (extension_block st) @ z) = [] @ groups_of constraint_pattern z" for z
      using extension_block_other [OF k m_extension assms, of z] by simp
    show "groups_of constraint_pattern (lines_text (type_block st) @ z) = [] @ groups_of constraint_pattern z" for z
      using type_block_other [OF k m_type assms, of z] by simp
    show "groups_of constraint_pattern (lines_text (table_block st) @ z) = [] @ groups_of constraint_pattern z" for z
      using table_block_other [OF k m_table assms, of z] by simp
    show "groups_of constraint_pattern (lines_text (constraint_block st) @ z) = (map (\<lambda>c. [fst c, fst (snd c), snd (snd c)]) (constraints st)) @ groups_of constraint_pattern z" for z
      by (rule constraint_block_own [OF assms])
    show "groups_of constraint_pattern (lines_text (trigger_block st) @ z) = [] @ groups_of constraint_pattern z" for z
      using trigger_block_other [OF k m_trigger assms, of z] by simp
  qed
  then show ?thesis by (simp add: generated_groups patterns_end_with_semicolon)
qed

lemma regenerated_triggers:
  assumes "ok_statements st"
  shows "groups_of trigger_pattern (generate_consolidated_migration st)
         = map (\<lambda>t. [fst t, snd t]) (triggers st)"
proof -
  note k = keyword_patterns(6)
  have m_extension: "match_at trigger_pattern (''CREATE EXTENSION IF NOT EXISTS '' @ z) = None" for z
    by (simp add: trigger_pattern_def opener_mismatch)
  have m_type: "match_at trigger_pattern (''CREATE TYPE public.'' @ z) = None" for z
    by (simp add: trigger_pattern_def opener_mismatch)
  have m_table: "match_at trigger_pattern (''CREATE TABLE public.'' @ z) = None" for z
    by (simp add: trigger_pattern_def opener_mismatch)
  have m_constraint: "match_at trigger_pattern (''ALTER TABLE ONLY public.'' @ z) = None" for z
    by (simp add: trigger_pattern_def opener_mismatch)
  have "groups_of trigger_pattern (lines_text (migration_sql st))
      = ([])
        @ ([])
        @ ([])
        @ ([])
        @ (map (\<lambda>t. [fst t, snd t]) (triggers st))"
  proof (rule whole_groups [OF k assms])
    show "groups_of trigger_pattern (lines_text (extension_block st) @ z) = [] @ groups_of trigger_pattern z" for z
      using extension_block_other [OF k m_extension assms, of z] by simp
    show "groups_of trigger_pattern (lines_text (type_block st) @ z) = [] @ groups_of trigger_pattern z" for z
      using type_block_other [OF k m_type assms, of z] by simp
    show "groups_of trigger_pattern (lines_text (table_block st) @ z) = [] @ groups_of trigger_pattern z" for z
      using table_block_other [OF k m_table assms, of z] by simp
    show "groups_of trigger_pattern (lines_text (constraint_block st) @ z) = [] @ groups_of trigger_pattern z" for z
      using constraint_block_other [OF k m_constraint assms, of z] by simp
    show "groups_of trigger_pattern (lines_text (trigger_block st) @ z) = (map (\<lambda>t. [fst t, snd t]) (triggers st)) @ groups_of trigger_pattern z" for z
      by (rule trigger_block_own [OF assms])
  qed
  then show ?thesis by (simp add: generated_groups patterns_end_with_semicolon)
qed

lemma regenerated_indexes:
  assumes "ok_statements st"
  shows "groups_of index_pattern (generate_consolidated_migration st)
         = []"
proof -
  note k = keyword_patterns(4)
  have m_extension: "match_at index_pattern (''CREATE EXTENSION IF NOT EXISTS '' @ z) = None" for z
    by (simp add: index_pattern_def opener_mismatch)
  have m_type: "match_at index_pattern (''CREATE TYPE public.'' @ z) = None" for z
    by (simp add: index_pattern_def opener_mismatch)
  have m_table: "match_at index_pattern (''CREATE TABLE public.'' @ z) = None" for z
    by (simp add: index_pattern_def opener_mismatch)
  have m_constraint: "match_at index_pattern (''ALTER TABLE ONLY public.'' @ z) = None" for z
    by (simp add: index_pattern_def opener_mismatch)
  have m_trigger: "match_at index_pattern (''CREATE TRIGGER '' @ z) = None" for z
    by (simp add: index_pattern_def opener_mismatch)
  have "groups_of index_pattern (lines_text (migration_sql st))
      = ([])
        @ ([])
        @ ([])
        @ ([])
        @ ([])"
  proof (rule whole_groups [OF k assms])
    show "groups_of index_pattern (lines_text (extension_block st) @ z) = [] @ groups_of index_pattern z" for z
      using extension_block_other [OF k m_extension assms, of z] by simp
    show "groups_of index_pattern (lines_text (type_block st) @ z) = [] @ groups_of index_pattern z" for z
      using type_block_other [OF k m_type assms, of z] by simp
    show "groups_of index_pattern (lines_text (table_block st) @ z) = [] @ groups_of index_pattern z" for z
      using table_block_other [OF k m_table assms, of z] by simp
    show "groups_of index_pattern (lines_text (constraint_block st) @ z) = [] @ groups_of index_pattern z" for z
      using constraint_block_other [OF k m_constraint assms, of z] by simp
    show "groups_of index_pattern (lines_text (trigger_block st) @ z) = [] @ groups_of index_pattern z" for z
      using trigger_block_other [OF k m_trigger assms, of z] by simp
  qed
  then show ?thesis by (simp add: generated_groups patterns_end_with_semicolon)
qed

lemma regenerated_functions:
  assumes "ok_statements st"
  shows "groups_of function_pattern (generate_consolidated_migration st)
         = []"
proof -
  note k = keyword_patterns(7)
  have m_extension: "match_at function_pattern (''CREATE EXTENSION IF NOT EXISTS '' @ z) = None" for z
    by (simp add: function_pattern_def opener_mismatch)
  have m_type: "match_at function_pattern (''CREATE TYPE public.'' @ z) = None" for z
    by (simp add: function_pattern_def opener_mismatch)
  have m_table: "match_at function_pattern (''CREATE TABLE public.'' @ z) = None" for z
    by (simp add: function_pattern_def opener_mismatch)
  have m_constraint: "match_at function_pattern (''ALTER TABLE ONLY public.'' @ z) = None" for z
    by (simp add: function_pattern_def opener_mismatch)
  have m_trigger: "match_at function_pattern (''CREATE TRIGGER '' @ z) = None" for z
    by (simp add: function_pattern_def opener_mismatch)
  have "groups_of function_pattern (lines_text (migration_sql st))
      = ([])
        @ ([])
        @ ([])
        @ ([])
        @ ([])"
  proof (rule whole_groups [OF k assms])
    show "groups_of function_pattern (lines_text (extension_block st) @ z) = [] @ groups_of function_pattern z" for z
      using extension_block_other [OF k m_extension assms, of z] by simp
    show "groups_of function_pattern (lines_text (type_block st) @ z) = [] @ groups_of function_pattern z" for z
      using type_block_other [OF k m_type assms, of z] by simp
    show "groups_of function_pattern (lines_text (table_block st) @ z) = [] @ groups_of function_pattern z" for z
      using table_block_other [OF k m_table assms, of z] by simp
    show "groups_of function_pattern (lines_text (constraint_block st) @ z) = [] @ groups_of function_pattern z" for z
      using constraint_block_other [OF k m_constraint assms, of z] by simp
    show "groups_of function_pattern (lines_text (trigger_block st) @ z) = [] @ groups_of function_pattern z" for z
      using trigger_block_other [OF k m_trigger assms, of z] by simp
  qed
  then show ?thesis by (simp add: generated_groups patterns_end_with_semicolon)
qed

lemma groups_of_length: "length (finditer P s) = length (groups_of P s)"
  by (simp add: groups_of_def)


text \<open>
  The text \<open>CREATE TABLE public.__diesel_schema_migrations (\<close> as a one-literal pattern:
  where it matches nowhere, the text does not occur.
\<close>

lemma prefix_same_stop:
  "c \<notin> set a \<Longrightarrow> c \<notin> set b \<Longrightarrow> prefix (a @ c # x) (b @ c # y) \<Longrightarrow> a = b"
proof (induction a arbitrary: b)
  case Nil
  then show ?case by (cases b) auto
next
  case (Cons e a)
  then show ?case by (cases b) auto
qed

lemma literal_absent:
  assumes "l \<noteq> []" and "groups_of [Plain (Lit l)] s = []"
  shows "\<not> sublist l s"
  using assms(2)
proof (induction s)
  case Nil
  with assms(1) show ?case by simp
next
  case (Cons c s)
  have np: "\<not> prefix l (c # s)"
  proof
    assume "prefix l (c # s)"
    then obtain r where r: "c # s = l @ r" by (auto simp: prefix_def)
    have m: "match_at [Plain (Lit l)] (c # s) = Some ([], r)"
      unfolding r by (rule match_at_Lit_last)
    from r assms(1) have "length r < length (c # s)"
      by (metis length_append length_greater_0_conv less_add_same_cancel2)
    from groups_of_Some [OF m this] Cons.prems show False by simp
  qed
  then have "match_at [Plain (Lit l)] (c # s) = None" by (rule opener_mismatch)
  from groups_of_None [OF this] Cons.prems have "groups_of [Plain (Lit l)] s = []" by simp
  with Cons.IH have "\<not> sublist l s" by simp
  with np show ?case by (simp add: sublist_Cons_right)
qed

lemma table_stmt_silent_named:
  assumes "keyword_pattern P"
    and "\<And>z. match_at P (''CREATE TABLE public.'' @ fst t @ '' ('' @ z) = None"
    and "ok_table t"
  shows "silent P (lines_text (table_entries t)) rest"
proof -
  note k = assms(1)
  from assms(3) have n: "keyword_free (fst t)" and v: "keyword_free (snd t)"
    by (simp_all add: ok_table_def ok_name_def)
  have 1: "silent P ''CREATE TABLE public.'' (fst t @ '' ('' @ z)" for z
    using assms(2) [of z]
    by (intro silent_opener [OF k, of _ "''REATE TABLE public.''", simplified]) simp_all
  have 2: "silent P (fst t) ('' ('' @ z)" for z
    using silent_field [OF k n, of "CHR '' ''"] by simp
  have 3: "silent P '' ('' z" for z by (rule silent_calm [OF k]) simp
  have 4: "silent P (nl # lines_text (map (\<lambda>line. ''    '' @ strip line)
                                      (split nl (strip (snd t))))) z" for z
    using table_lines_silent [OF k v, of z] match_at_keyword [OF k, of "nl # _"]
    by (simp add: silent_Cons nl_def)
  have 5: "silent P ('');'' @ [nl]) z" for z by (rule silent_calm [OF k]) (simp add: nl_def)
  show ?thesis
    unfolding table_text silent_append [of P "''CREATE TABLE public.''"] silent_append [of P "fst t"]
      silent_append [of P "'' (''"] silent_append [of P "nl # _"]
    using 1 2 3 4 5 by (simp del: append.simps)
qed

lemma diesel_opener_mismatch:
  assumes "wordy n" "n \<noteq> diesel_table"
  shows "match_at [Plain (Lit ''CREATE TABLE public.__diesel_schema_migrations ('')]
           (''CREATE TABLE public.'' @ n @ '' ('' @ z) = None"
proof (rule opener_mismatch)
  have d: "''CREATE TABLE public.__diesel_schema_migrations (''
         = ''CREATE TABLE public.'' @ (diesel_table @ CHR '' '' # ''('')"
    by (simp add: diesel_table_def)
  have e: "''CREATE TABLE public.'' @ n @ '' ('' @ z
         = ''CREATE TABLE public.'' @ (n @ CHR '' '' # ''('' @ z)" by simp
  from assms(1) have sn: "CHR '' '' \<notin> set n"
    using not_word_chars(1) by (auto simp: wordy_def list_all_iff)
  have sd: "CHR '' '' \<notin> set diesel_table" by (simp add: diesel_table_def)
  show "\<not> prefix ''CREATE TABLE public.__diesel_schema_migrations (''
            (''CREATE TABLE public.'' @ n @ '' ('' @ z)"
    unfolding d e same_prefix_prefix
    using prefix_same_stop [OF sd sn] assms(2) by blast
qed

lemma table_block_diesel:
  assumes "ok_statements st" and "diesel_table \<notin> fst ` set (tables st)"
  shows "groups_of [Plain (Lit ''CREATE TABLE public.__diesel_schema_migrations ('')]
           (lines_text (table_block st) @ z)
         = groups_of [Plain (Lit ''CREATE TABLE public.__diesel_schema_migrations ('')] z"
proof (cases "tables st = []")
  case True
  then show ?thesis by (simp add: table_block_def lines_text_simps)
next
  case False
  let ?D = "[Plain (Lit ''CREATE TABLE public.__diesel_schema_migrations ('')]"
  have k: "keyword_pattern ?D" by (simp add: keyword_pattern_def)
  have b: "table_block st = ''-- Tables'' # concat (map table_entries (tables st)) @ [[]]"
    using False by (simp add: table_block_def)
  have "silent ?D (lines_text (table_block st)) z"
    unfolding b
  proof (rule block_silent [OF k calm_headers(3)])
    fix x z'
    assume x: "x \<in> set (tables st)"
    with assms(1) have o: "ok_table x" by (simp add: ok_statements_def list_all_iff)
    then have w: "wordy (fst x)" by (simp add: ok_table_def ok_name_def)
    from x assms(2) have ne: "fst x \<noteq> diesel_table" by force
    show "silent ?D (lines_text (table_entries x)) z'"
      by (rule table_stmt_silent_named [OF k diesel_opener_mismatch [OF w ne] o])
  qed
  then show ?thesis by (rule groups_of_silent)
qed

lemma diesel_text_absent:
  assumes "ok_statements st" and "diesel_table \<notin> fst ` set (tables st)"
  shows "\<not> sublist ''CREATE TABLE public.__diesel_schema_migrations (''
             (generate_consolidated_migration st)"
proof -
  let ?l = "''CREATE TABLE public.__diesel_schema_migrations (''"
  let ?D = "[Plain (Lit ?l)]"
  have k: "keyword_pattern ?D" by (simp add: keyword_pattern_def)
  have m_extension: "match_at ?D (''CREATE EXTENSION IF NOT EXISTS '' @ z) = None" for z
    by (simp add: opener_mismatch)
  have m_type: "match_at ?D (''CREATE TYPE public.'' @ z) = None" for z
    by (simp add: opener_mismatch)
  have m_constraint: "match_at ?D (''ALTER TABLE ONLY public.'' @ z) = None" for z
    by (simp add: opener_mismatch)
  have m_trigger: "match_at ?D (''CREATE TRIGGER '' @ z) = None" for z
    by (simp add: opener_mismatch)
  have "groups_of ?D (lines_text (migration_sql st)) = [] @ [] @ [] @ [] @ []"
  proof (rule whole_groups [OF k assms(1)])
    show "groups_of ?D (lines_text (extension_block st) @ z) = [] @ groups_of ?D z" for z
      using extension_block_other [OF k m_extension assms(1), of z] by simp
    show "groups_of ?D (lines_text (type_block st) @ z) = [] @ groups_of ?D z" for z
      using type_block_other [OF k m_type assms(1), of z] by simp
    show "groups_of ?D (lines_text (table_block st) @ z) = [] @ groups_of ?D z" for z
      using table_block_diesel [OF assms, of z] by simp
    show "groups_of ?D (lines_text (constraint_block st) @ z) = [] @ groups_of ?D z" for z
      using constraint_block_other [OF k m_constraint assms(1), of z] by simp
    show "groups_of ?D (lines_text (trigger_block st) @ z) = [] @ groups_of ?D z" for z
      using trigger_block_other [OF k m_trigger assms(1), of z] by simp
  qed
  then have g: "groups_of ?D (lines_text (migration_sql st)) = []" by simp
  have ne: "?l \<noteq> []" by simp
  have a: "\<not> sublist ?l (lines_text (migration_sql st))"
    by (rule literal_absent [OF ne g])
  have "migration_sql st \<noteq> []" by (simp add: migration_sql_blocks header_block_def)
  from join_lines_text [OF this]
  have t: "lines_text (migration_sql st) = generate_consolidated_migration st @ [nl]"
    by (simp add: generate_consolidated_migration_def)
  show ?thesis
  proof
    assume "sublist ?l (generate_consolidated_migration st)"
    then have "sublist ?l (generate_consolidated_migration st @ [nl])"
      by (rule sublist_trans) (rule sublist_append_rightI)
    with a t show False by simp
  qed
qed

section \<open>The claims\<close>

text \<open>
  Claim C1: no statement of the input makes \<open>extract_ddl_statements\<close> raise.  The code
  does raise: the index pattern has four groups, the loop over its matches reads group 5,
  and \<open>match.group(5)\<close> raises \<open>IndexError\<close> at the first \<open>CREATE INDEX\<close> statement that
  matches.  The theorem runs the extractor on a text that is one such statement.
\<close>

theorem extract_raises_on_index:
  "extract_ddl_statements ''CREATE INDEX idx_a ON public.t USING btree (c);'' = Inl IndexError"
  by code_simp

text \<open>
  Claim C2: a \<open>CREATE INDEX\<close> statement with a \<open>WHERE (...)\<close> clause is emitted with that
  clause after its column list.  The code never gets that far: the clause is matched by a
  non-capturing group, the match has the four groups name, table, method and columns, and
  reading group 5 raises \<open>IndexError\<close> before anything is emitted.
\<close>

theorem extract_raises_on_partial_index:
  "finditer index_pattern ''CREATE INDEX i ON public.t USING btree (c) WHERE (d > 0);''
     = [(0, [''i'', ''t'', ''btree'', ''c''])]
   \<and> extract_ddl_statements ''CREATE INDEX i ON public.t USING btree (c) WHERE (d > 0);''
     = Inl IndexError"
  by code_simp

text \<open>
  Claim C6, as stated: the bookkeeping table is never in the table collection, and no
  \<open>CREATE TABLE\<close> for it is in the emitted text.  The second part fails where a raw text of
  another category holds the statement: the definition of the trigger below runs to the
  first semicolon, which is the one of the \<open>CREATE TABLE\<close> statement for the bookkeeping
  table, and the trigger entry is the definition, copied as it is.
\<close>

theorem bookkeeping_table_in_trigger_text:
  "extract_ddl_statements
     ''CREATE TRIGGER t x\<newline>CREATE TABLE public.__diesel_schema_migrations (\<newline>v text);''
   = Inr \<lparr>extensions = [], types = [], tables = [], indexes = [], constraints = [],
           triggers = [(''t'', ''x\<newline>CREATE TABLE public.__diesel_schema_migrations (\<newline>v text)'')],
           functions' = []\<rparr>
   \<and> generate_consolidated_migration
       \<lparr>extensions = [], types = [], tables = [], indexes = [], constraints = [],
        triggers = [(''t'', ''x\<newline>CREATE TABLE public.__diesel_schema_migrations (\<newline>v text)'')],
        functions' = []\<rparr>
     = ''-- Consolidated Initial Schema Migration\<newline>-- This migration consolidates all previous migrations into a single migration\<newline>-- Generated from target schema dump\<newline>\<newline>-- Triggers\<newline>CREATE TRIGGER t x\<newline>CREATE TABLE public.__diesel_schema_migrations (\<newline>v text);\<newline>''
   \<and> sublist ''CREATE TABLE public.__diesel_schema_migrations (''
       (generate_consolidated_migration
          \<lparr>extensions = [], types = [], tables = [], indexes = [], constraints = [],
           triggers = [(''t'', ''x\<newline>CREATE TABLE public.__diesel_schema_migrations (\<newline>v text)'')],
           functions' = []\<rparr>)"
proof -
  have 1: "extract_ddl_statements
     ''CREATE TRIGGER t x\<newline>CREATE TABLE public.__diesel_schema_migrations (\<newline>v text);''
   = Inr \<lparr>extensions = [], types = [], tables = [], indexes = [], constraints = [],
           triggers = [(''t'', ''x\<newline>CREATE TABLE public.__diesel_schema_migrations (\<newline>v text)'')],
           functions' = []\<rparr>"
    by code_simp
  have 2: "generate_consolidated_migration
       \<lparr>extensions = [], types = [], tables = [], indexes = [], constraints = [],
        triggers = [(''t'', ''x\<newline>CREATE TABLE public.__diesel_schema_migrations (\<newline>v text)'')],
        functions' = []\<rparr>
     = ''-- Consolidated Initial Schema Migration\<newline>-- This migration consolidates all previous migrations into a single migration\<newline>-- Generated from target schema dump\<newline>\<newline>-- Triggers\<newline>CREATE TRIGGER t x\<newline>CREATE TABLE public.__diesel_schema_migrations (\<newline>v text);\<newline>''"
    by code_simp
  have 3: "sublist ''CREATE TABLE public.__diesel_schema_migrations (''
     (''-- Consolidated Initial Schema Migration\<newline>-- This migration consolidates all previous migrations into a single migration\<newline>-- Generated from target schema dump\<newline>\<newline>-- Triggers\<newline>CREATE TRIGGER t x\<newline>''
      @ ''CREATE TABLE public.__diesel_schema_migrations ('' @ ''\<newline>v text);\<newline>'')"
    by (rule sublist_appendI)
  from 3 have "sublist ''CREATE TABLE public.__diesel_schema_migrations (''
     ''-- Consolidated Initial Schema Migration\<newline>-- This migration consolidates all previous migrations into a single migration\<newline>-- Generated from target schema dump\<newline>\<newline>-- Triggers\<newline>CREATE TRIGGER t x\<newline>CREATE TABLE public.__diesel_schema_migrations (\<newline>v text);\<newline>''"
    by simp
  with 1 2 show ?thesis by simp
qed

text \<open>
  Claim C6, amended: whenever the extractor returns, no entry of its table collection is
  named \<open>__diesel_schema_migrations\<close> and no entry that the emitter appends is the line
  \<open>CREATE TABLE public.__diesel_schema_migrations (\<close>; and when no captured name or raw text
  contains the word \<open>CREATE\<close> or \<open>ALTER\<close>, that text occurs nowhere in the emitted text.
\<close>

theorem bookkeeping_table_excluded:
  assumes "extract_ddl_statements content = Inr st"
  shows "diesel_table \<notin> fst ` set (tables st)
       \<and> ''CREATE TABLE public.__diesel_schema_migrations ('' \<notin> set (migration_sql st)
       \<and> (clean st \<longrightarrow>
            \<not> sublist ''CREATE TABLE public.__diesel_schema_migrations (''
                (generate_consolidated_migration st))"
proof -
  from assms have "tables st = map (\<lambda>m. (snd m ! 0, strip (snd m ! 1)))
      (filter (\<lambda>m. snd m ! 0 \<noteq> diesel_table) (finditer table_pattern content))"
    by (auto simp: extract_ddl_statements_eq split: if_splits)
  then have d: "diesel_table \<notin> fst ` set (tables st)" by auto
  have "\<not> sublist ''CREATE TABLE public.__diesel_schema_migrations (''
                (generate_consolidated_migration st)" if "clean st"
    by (rule diesel_text_absent [OF extracted_ok [OF assms that] d])
  with d diesel_line_not_emitted show ?thesis by blast
qed

text \<open>
  The input holds a \<open>CREATE TABLE\<close> statement for the bookkeeping table and one for the
  table \<open>t\<close>; only \<open>t\<close> is extracted and emitted.
\<close>

theorem bookkeeping_table_excluded_witness:
  "extract_ddl_statements
     ''CREATE TABLE public.__diesel_schema_migrations (v text);CREATE TABLE public.t (a int);''
     = Inr \<lparr>extensions = [], types = [], tables = [(''t'', ''a int'')], indexes = [],
             constraints = [], triggers = [], functions' = []\<rparr>
   \<and> clean \<lparr>extensions = [], types = [], tables = [(''t'', ''a int'')], indexes = [],
             constraints = [], triggers = [], functions' = []\<rparr>
   \<and> \<not> sublist ''CREATE TABLE public.__diesel_schema_migrations (''
         (generate_consolidated_migration
            \<lparr>extensions = [], types = [], tables = [(''t'', ''a int'')], indexes = [],
             constraints = [], triggers = [], functions' = []\<rparr>)
   \<and> generate_consolidated_migration
        \<lparr>extensions = [], types = [], tables = [(''t'', ''a int'')], indexes = [],
         constraints = [], triggers = [], functions' = []\<rparr>
      = ''-- Consolidated Initial Schema Migration\<newline>-- This migration consolidates all previous migrations into a single migration\<newline>-- Generated from target schema dump\<newline>\<newline>-- Tables\<newline>CREATE TABLE public.t (\<newline>    a int\<newline>);\<newline>''"
proof -
  have h: "extract_ddl_statements
     ''CREATE TABLE public.__diesel_schema_migrations (v text);CREATE TABLE public.t (a int);''
     = Inr \<lparr>extensions = [], types = [], tables = [(''t'', ''a int'')], indexes = [],
             constraints = [], triggers = [], functions' = []\<rparr>"
    by code_simp
  have c: "clean \<lparr>extensions = [], types = [], tables = [(''t'', ''a int'')], indexes = [],
             constraints = [], triggers = [], functions' = []\<rparr>"
    by code_simp
  have g: "generate_consolidated_migration
        \<lparr>extensions = [], types = [], tables = [(''t'', ''a int'')], indexes = [],
         constraints = [], triggers = [], functions' = []\<rparr>
      = ''-- Consolidated Initial Schema Migration\<newline>-- This migration consolidates all previous migrations into a single migration\<newline>-- Generated from target schema dump\<newline>\<newline>-- Tables\<newline>CREATE TABLE public.t (\<newline>    a int\<newline>);\<newline>''"
    by code_simp
  from bookkeeping_table_excluded [OF h] h c g show ?thesis by blast
qed

text \<open>
  Claim C3: the emitter appends the header, then the sections Extensions, custom types,
  Tables, Constraints, Indexes and Triggers, in that order, and returns the entries joined
  by newlines.  Hence, for any two groups of entries \<open>A\<close> and \<open>B\<close> with \<open>A\<close> before \<open>B\<close> in
  the list (such as any two of the seven blocks), every entry of \<open>A\<close> starts on an earlier
  line of the emitted text than every entry of \<open>B\<close>.
\<close>

theorem emission_order:
  "migration_sql st =
     header_block @ extension_block st @ type_block st @ table_block st @ constraint_block st
     @ index_block st @ trigger_block st
   \<and> generate_consolidated_migration st = join [nl] (migration_sql st)
   \<and> (\<forall>pre A mid B post i j.
         migration_sql st = pre @ A @ mid @ B @ post \<and> i < length A \<and> j < length B \<longrightarrow>
         line_of (generate_consolidated_migration st) (entry_offset (migration_sql st) (length pre + i))
         < line_of (generate_consolidated_migration st)
             (entry_offset (migration_sql st) (length pre + length A + length mid + j)))"
proof (intro conjI allI impI)
  show "migration_sql st =
     header_block @ extension_block st @ type_block st @ table_block st @ constraint_block st
     @ index_block st @ trigger_block st"
    by (rule migration_sql_blocks)
  show "generate_consolidated_migration st = join [nl] (migration_sql st)"
    by (simp add: generate_consolidated_migration_def)
next
  fix pre A mid B post :: "string list" and i j
  assume h: "migration_sql st = pre @ A @ mid @ B @ post \<and> i < length A \<and> j < length B"
  then have "length pre + i < length pre + length A + length mid + j"
    and "length pre + length A + length mid + j < length (migration_sql st)"
    by simp_all
  then show "line_of (generate_consolidated_migration st) (entry_offset (migration_sql st) (length pre + i))
         < line_of (generate_consolidated_migration st)
             (entry_offset (migration_sql st) (length pre + length A + length mid + j))"
    unfolding generate_consolidated_migration_def by (rule line_of_entry_mono)
qed

text \<open>One extension and one trigger: the extension line comes before the trigger line.\<close>

theorem emission_order_witness:
  "migration_sql \<lparr>extensions = [''e''], types = [], tables = [], indexes = [],
                  constraints = [], triggers = [(''t'', ''d'')], functions' = []\<rparr>
     = header_block
       @ [''-- Extensions'', ''CREATE EXTENSION IF NOT EXISTS e WITH SCHEMA public;'', []]
       @ [] @ [''-- Triggers'', ''CREATE TRIGGER t d;'', []] @ []
   \<and> line_of (generate_consolidated_migration
                \<lparr>extensions = [''e''], types = [], tables = [], indexes = [],
                 constraints = [], triggers = [(''t'', ''d'')], functions' = []\<rparr>)
         (entry_offset (migration_sql
                \<lparr>extensions = [''e''], types = [], tables = [], indexes = [],
                 constraints = [], triggers = [(''t'', ''d'')], functions' = []\<rparr>) 5)
     < line_of (generate_consolidated_migration
                \<lparr>extensions = [''e''], types = [], tables = [], indexes = [],
                 constraints = [], triggers = [(''t'', ''d'')], functions' = []\<rparr>)
         (entry_offset (migration_sql
                \<lparr>extensions = [''e''], types = [], tables = [], indexes = [],
                 constraints = [], triggers = [(''t'', ''d'')], functions' = []\<rparr>) 8)"
proof -
  let ?st = "\<lparr>extensions = [''e''], types = [], tables = [], indexes = [],
              constraints = [], triggers = [(''t'', ''d'')], functions' = []\<rparr>"
  let ?A = "[''-- Extensions'', ''CREATE EXTENSION IF NOT EXISTS e WITH SCHEMA public;'', []]"
  let ?B = "[''-- Triggers'', ''CREATE TRIGGER t d;'', []]"
  have h: "migration_sql ?st = header_block @ ?A @ [] @ ?B @ []"
    by (simp add: migration_sql_blocks extension_block_def type_block_def table_block_def
        constraint_block_def index_block_def trigger_block_def)
  have "(1::nat) < length ?A" and "(1::nat) < length ?B" by simp_all
  with h emission_order [of ?st, THEN conjunct2, THEN conjunct2, rule_format,
      of header_block ?A "[]" ?B "[]" 1 1]
  have "line_of (generate_consolidated_migration ?st)
          (entry_offset (migration_sql ?st) (length header_block + 1))
        < line_of (generate_consolidated_migration ?st)
          (entry_offset (migration_sql ?st)
             (length header_block + length ?A + length ([] :: string list) + 1))"
    by blast
  then show ?thesis using h by (simp add: header_block_def eval_nat_numeral)
qed

text \<open>
  Claim C5: the emitter renders the value list of an enum type as one entry per value of
  the list split at its commas, each value stripped and indented by four spaces; every
  entry but the last ends with a comma, and the last holds no comma at all.  These entries
  stand between the \<open>CREATE TYPE\<close> line and the closing \<open>);\<close>.  The value list
  \<open>'a', 'b', 'c'\<close> gives the three entries \<open>    'a',\<close> and \<open>    'b',\<close> and \<open>    'c'\<close>.
\<close>

theorem enum_values_rendering:
  "add_enum_values enum_values sql =
     sql @ map (\<lambda>v. ''    '' @ v @ '','') (butlast (map strip (split CHR '','' enum_values)))
         @ [''    '' @ last (map strip (split CHR '','' enum_values))]
   \<and> CHR '','' \<notin> set (last (map strip (split CHR '','' enum_values)))
   \<and> migration_sql \<lparr>extensions = [], types = [(type_name, enum_values)], tables = [],
                    indexes = [], constraints = [], triggers = [], functions' = []\<rparr>
       = header_block
         @ [''-- Custom Types (ENUMs)'', ''CREATE TYPE public.'' @ type_name @ '' AS ENUM ('']
         @ add_enum_values enum_values [] @ ['');'', []]
   \<and> add_enum_values (CHR 0x27 # ''a', 'b', 'c'' @ [CHR 0x27]) []
       = [''    'a','', ''    'b','', ''    'c'' @ [CHR 0x27]]"
proof (intro conjI)
  show "add_enum_values enum_values sql =
     sql @ map (\<lambda>v. ''    '' @ v @ '','') (butlast (map strip (split CHR '','' enum_values)))
         @ [''    '' @ last (map strip (split CHR '','' enum_values))]"
    by (rule add_enum_values_eq)
  have "last (split CHR '','' enum_values) \<in> set (split CHR '','' enum_values)"
    by (simp add: split_not_Nil)
  then have "CHR '','' \<notin> set (last (split CHR '','' enum_values))"
    by (rule split_no_sep)
  with set_strip show "CHR '','' \<notin> set (last (map strip (split CHR '','' enum_values)))"
    by (auto simp: last_map split_not_Nil)
  show "migration_sql \<lparr>extensions = [], types = [(type_name, enum_values)], tables = [],
                    indexes = [], constraints = [], triggers = [], functions' = []\<rparr>
       = header_block
         @ [''-- Custom Types (ENUMs)'', ''CREATE TYPE public.'' @ type_name @ '' AS ENUM ('']
         @ add_enum_values enum_values [] @ ['');'', []]"
    by (simp add: migration_sql_blocks extension_block_def type_block_def table_block_def
        constraint_block_def index_block_def trigger_block_def type_entries_def)
  show "add_enum_values (CHR 0x27 # ''a', 'b', 'c'' @ [CHR 0x27]) []
       = [''    'a','', ''    'b','', ''    'c'' @ [CHR 0x27]]"
    by code_simp
qed

text \<open>
  Claim C7: the extractor puts the matches of the function pattern into the functions
  collection, and the emitter's output does not depend on that collection: whatever it
  holds, the entries and the text emitted are the same.
\<close>

theorem functions_not_emitted:
  "(extract_ddl_statements content = Inr st \<longrightarrow>
      functions' st = map (\<lambda>m. (snd m ! 0, snd m ! 1)) (finditer function_pattern content))
   \<and> migration_sql (st'\<lparr>functions' := fs\<rparr>) = migration_sql st'
   \<and> generate_consolidated_migration (st'\<lparr>functions' := fs\<rparr>)
       = generate_consolidated_migration st'"
proof -
  have "migration_sql (st'\<lparr>functions' := fs\<rparr>) = migration_sql st'"
    by (simp add: migration_sql_blocks extension_block_def type_block_def table_block_def
        constraint_block_def index_block_def trigger_block_def)
  then show ?thesis
    by (auto simp: generate_consolidated_migration_def extract_ddl_statements_eq
        split: if_splits)
qed

text \<open>One function is extracted; the migration emitted is the header alone.\<close>

theorem functions_not_emitted_witness:
  "extract_ddl_statements ''CREATE OR REPLACE FUNCTION public.f() RETURNS trigger;''
     = Inr \<lparr>extensions = [], types = [], tables = [], indexes = [], constraints = [],
             triggers = [], functions' = [(''f'', ''trigger'')]\<rparr>
   \<and> map (\<lambda>m. (snd m ! 0, snd m ! 1))
       (finditer function_pattern ''CREATE OR REPLACE FUNCTION public.f() RETURNS trigger;'')
     = [(''f'', ''trigger'')]
   \<and> migration_sql \<lparr>extensions = [], types = [], tables = [], indexes = [], constraints = [],
                    triggers = [], functions' = [(''f'', ''trigger'')]\<rparr> = header_block"
proof -
  let ?c = "''CREATE OR REPLACE FUNCTION public.f() RETURNS trigger;''"
  let ?st = "\<lparr>extensions = [], types = [], tables = [], indexes = [], constraints = [],
              triggers = [], functions' = [(''f'', ''trigger'')]\<rparr>"
  have h: "extract_ddl_statements ?c = Inr ?st" by code_simp
  note T = functions_not_emitted [where content = ?c and st = ?st and st' = ?st and fs = "[]"]
  from T h have f: "functions' ?st = map (\<lambda>m. (snd m ! 0, snd m ! 1)) (finditer function_pattern ?c)"
    by blast
  from T have g: "migration_sql (?st\<lparr>functions' := []\<rparr>) = migration_sql ?st"
    by blast
  have e: "migration_sql (?st\<lparr>functions' := []\<rparr>) = header_block"
    by (simp add: migration_sql_blocks extension_block_def type_block_def table_block_def
        constraint_block_def index_block_def trigger_block_def)
  from g e have "migration_sql ?st = header_block" by (rule trans [OF sym])
  moreover from f have "map (\<lambda>m. (snd m ! 0, snd m ! 1)) (finditer function_pattern ?c)
     = [(''f'', ''trigger'')]" by (simp del: One_nat_def)
  ultimately show ?thesis using h by blast
qed

text \<open>
  Claim C9: the naming check returns false exactly when some migration name has fewer
  than three characters, and then \<open>main\<close> returns exit status 1; a name that does not match
  the naming convention adds a warning to the output and has no part in the result.
\<close>

theorem naming_check_short_names_only:
  "snd (check_migration_naming_conventions migrations)
     = (\<forall>m\<in>set migrations. 3 \<le> length (fst (snd m)))
   \<and> ((\<exists>m\<in>set migrations. length (fst (snd m)) < 3) \<longrightarrow> main strftime migrations = 1)
   \<and> (\<forall>m\<in>set migrations. \<not> matches_convention (fst (snd m)) \<longrightarrow>
         Warn_convention (fst (snd m)) \<in> set (fst (check_migration_naming_conventions migrations)))"
proof -
  have a: "snd (check_migration_naming_conventions migrations)
     = (\<forall>m\<in>set migrations. 3 \<le> length (fst (snd m)))"
    using foldl_naming_step_flag [of "[Checking_naming]" False migrations]
    by (auto simp: check_migration_naming_conventions_def case_prod_unfold not_less)
  have b: "(\<exists>m\<in>set migrations. length (fst (snd m)) < 3) \<longrightarrow> main strftime migrations = 1"
    using a by (auto simp: main_def Let_def not_le)
  have c: "\<forall>m\<in>set migrations. \<not> matches_convention (fst (snd m)) \<longrightarrow>
         Warn_convention (fst (snd m)) \<in> set (fst (check_migration_naming_conventions migrations))"
    using foldl_naming_step_warns [of _ migrations "[Checking_naming]" False]
    by (auto simp: check_migration_naming_conventions_def case_prod_unfold Let_def)
  from a b c show ?thesis by blast
qed

text \<open>
  The name \<open>ab\<close> fails the validation.  The name \<open>Add_Users\<close> breaks the convention and is
  long enough: the check prints its warning and passes, and \<open>main\<close> returns 0.
\<close>

theorem naming_check_short_names_only_witness:
  "length ''ab'' < 3 \<and> main (\<lambda>t. ''1970-01-01 00:00:01'') [(1 :: nat, ''ab'', ''p'')] = 1
   \<and> \<not> matches_convention ''Add_Users'' \<and> 3 \<le> length ''Add_Users''
   \<and> check_migration_naming_conventions [(1 :: nat, ''Add_Users'', ''p'')]
       = ([Checking_naming, Warn_convention ''Add_Users'', Warn_expected, Warn_path ''p''], True)
   \<and> main (\<lambda>t. ''1970-01-01 00:00:01'') [(1 :: nat, ''Add_Users'', ''p'')] = 0"
proof -
  have s: "\<exists>m\<in>set [(1 :: nat, ''ab'', ''p'')]. length (fst (snd m)) < 3" by simp
  from naming_check_short_names_only
         [of "[(1 :: nat, ''ab'', ''p'')]" "\<lambda>t. ''1970-01-01 00:00:01''"] s
  have 1: "main (\<lambda>t. ''1970-01-01 00:00:01'') [(1 :: nat, ''ab'', ''p'')] = 1" by blast
  have nc: "\<not> matches_convention ''Add_Users''" by code_simp
  from naming_check_short_names_only [of "[(1 :: nat, ''Add_Users'', ''p'')]"]
  have 2: "snd (check_migration_naming_conventions [(1 :: nat, ''Add_Users'', ''p'')])"
    by simp
  have 3: "check_migration_naming_conventions [(1 :: nat, ''Add_Users'', ''p'')]
       = ([Checking_naming, Warn_convention ''Add_Users'', Warn_expected, Warn_path ''p''], True)"
    by code_simp
  have 4: "main (\<lambda>t. ''1970-01-01 00:00:01'') [(1 :: nat, ''Add_Users'', ''p'')] = 0" by code_simp
  from 1 nc 3 4 show ?thesis by simp
qed

text \<open>
  Claim C10: when the extractor returns, its result has exactly the seven collections
  \<open>extensions\<close>, \<open>types\<close>, \<open>tables\<close>, \<open>indexes\<close>, \<open>constraints\<close>, \<open>triggers\<close> and \<open>functions\<close>,
  each the list of the matches of its pattern in the order \<open>re.finditer\<close> reports them
  (the tables without the bookkeeping table, the indexes empty); the matches of a pattern
  are reported in strictly increasing order of their offsets in the text, and each is a
  match of the pattern at its offset.
\<close>

theorem extract_result_shape:
  assumes "extract_ddl_statements content = Inr st"
  shows "st = \<lparr>extensions = map (\<lambda>m. snd m ! 0) (finditer extension_pattern content),
               types = map (\<lambda>m. (snd m ! 0, strip (snd m ! 1))) (finditer type_pattern content),
               tables = map (\<lambda>m. (snd m ! 0, strip (snd m ! 1)))
                          (filter (\<lambda>m. snd m ! 0 \<noteq> diesel_table)
                             (finditer table_pattern content)),
               indexes = [],
               constraints = map (\<lambda>m. (snd m ! 0, snd m ! 1, snd m ! 2))
                               (finditer constraint_pattern content),
               triggers = map (\<lambda>m. (snd m ! 0, snd m ! 1)) (finditer trigger_pattern content),
               functions' = map (\<lambda>m. (snd m ! 0, snd m ! 1))
                              (finditer function_pattern content)\<rparr>
       \<and> finditer index_pattern content = []
       \<and> (\<forall>q. sorted_wrt (<) (map fst (finditer q content)))
       \<and> (\<forall>q. \<forall>m\<in>set (finditer q content).
             \<exists>r. match_at q (drop (fst m) content) = Some (snd m, r))"
proof -
  have "\<forall>q. sorted_wrt (<) (map fst (finditer q content))"
    by (simp add: finditer_def finditer_from_sorted)
  moreover have "\<forall>q. \<forall>m\<in>set (finditer q content).
             \<exists>r. match_at q (drop (fst m) content) = Some (snd m, r)"
    using finditer_from_match [of _ _ 0 content] by (auto simp: finditer_def)
  ultimately show ?thesis using assms
    by (auto simp: extract_ddl_statements_eq split: if_splits)
qed

text \<open>Two extensions around a trigger: the extensions are listed in text order.\<close>

theorem extract_result_shape_witness:
  "extract_ddl_statements
     ''CREATE EXTENSION IF NOT EXISTS a WITH SCHEMA public;CREATE TRIGGER t x;CREATE EXTENSION IF NOT EXISTS b WITH SCHEMA public;''
   = Inr \<lparr>extensions = [''a'', ''b''], types = [], tables = [], indexes = [], constraints = [],
           triggers = [(''t'', ''x'')], functions' = []\<rparr>
   \<and> map (\<lambda>m. snd m ! 0) (finditer extension_pattern
     ''CREATE EXTENSION IF NOT EXISTS a WITH SCHEMA public;CREATE TRIGGER t x;CREATE EXTENSION IF NOT EXISTS b WITH SCHEMA public;'')
     = [''a'', ''b'']
   \<and> sorted_wrt (<) (map fst (finditer extension_pattern
     ''CREATE EXTENSION IF NOT EXISTS a WITH SCHEMA public;CREATE TRIGGER t x;CREATE EXTENSION IF NOT EXISTS b WITH SCHEMA public;''))"
proof -
  let ?c = "''CREATE EXTENSION IF NOT EXISTS a WITH SCHEMA public;CREATE TRIGGER t x;CREATE EXTENSION IF NOT EXISTS b WITH SCHEMA public;''"
  let ?st = "\<lparr>extensions = [''a'', ''b''], types = [], tables = [], indexes = [], constraints = [],
           triggers = [(''t'', ''x'')], functions' = []\<rparr>"
  have h: "extract_ddl_statements ?c = Inr ?st" by code_simp
  from extract_result_shape [OF h]
  have "extensions ?st = map (\<lambda>m. snd m ! 0) (finditer extension_pattern ?c)"
    and "sorted_wrt (<) (map fst (finditer extension_pattern ?c))"
    by (simp_all del: sorted_wrt_map)
  with h show ?thesis by simp
qed

text \<open>
  Claim C8, as stated: a \<open>CREATE TABLE\<close> block whose closing parenthesis does not appear
  before the end of the input leaves the other categories as they are without the block.
  It fails where the block holds a semicolon: below, the comment before the block holds
  the words \<open>CREATE TRIGGER\<close>, and the trigger pattern matches from there to the semicolon
  inside the block, so that the block adds a trigger.
\<close>

theorem unterminated_block_changes_triggers:
  "CHR '')'' \<notin> set (''CREATE TABLE public.t (a text DEFAULT 'p;q', b'')
   \<and> extract_ddl_statements ''-- TODO: CREATE TRIGGER audit later\<newline>''
     = Inr \<lparr>extensions = [], types = [], tables = [], indexes = [], constraints = [],
             triggers = [], functions' = []\<rparr>
   \<and> extract_ddl_statements
       (''-- TODO: CREATE TRIGGER audit later\<newline>''
        @ ''CREATE TABLE public.t (a text DEFAULT 'p;q', b'')
     = Inr \<lparr>extensions = [], types = [], tables = [], indexes = [], constraints = [],
             triggers = [(''audit'', ''later\<newline>CREATE TABLE public.t (a text DEFAULT 'p'')],
             functions' = []\<rparr>"
proof -
  have 1: "CHR '')'' \<notin> set (''CREATE TABLE public.t (a text DEFAULT 'p;q', b'')" by simp
  have 2: "extract_ddl_statements ''-- TODO: CREATE TRIGGER audit later\<newline>''
     = Inr \<lparr>extensions = [], types = [], tables = [], indexes = [], constraints = [],
             triggers = [], functions' = []\<rparr>"
    by code_simp
  have 3: "extract_ddl_statements
       (''-- TODO: CREATE TRIGGER audit later\<newline>''
        @ ''CREATE TABLE public.t (a text DEFAULT 'p;q', b'')
     = Inr \<lparr>extensions = [], types = [], tables = [], indexes = [], constraints = [],
             triggers = [(''audit'', ''later\<newline>CREATE TABLE public.t (a text DEFAULT 'p'')],
             functions' = []\<rparr>"
    by code_simp
  from 1 2 3 show ?thesis by blast
qed

text \<open>
  Claim C8, amended: a \<open>CREATE TABLE\<close> block with no semicolon after its opening gives no
  table entry, and when such a block ends the input, the extractor does on the whole
  input what it does on the input without the block: the same result in every collection,
  and no error that the input before the block does not raise.
\<close>

theorem unterminated_table_block:
  assumes "CHR '';'' \<notin> set (name @ body)"
  shows "finditer table_pattern (''CREATE TABLE public.'' @ name @ '' ('' @ body) = []
       \<and> finditer table_pattern (pre @ ''CREATE TABLE public.'' @ name @ '' ('' @ body)
           = finditer table_pattern pre
       \<and> extract_ddl_statements (pre @ ''CREATE TABLE public.'' @ name @ '' ('' @ body)
           = extract_ddl_statements pre"
proof -
  let ?blk = "''CREATE TABLE public.'' @ name @ '' ('' @ body"
  from assms have s: "CHR '';'' \<notin> set ?blk" by simp
  from finditer_append [OF patterns_end_with_semicolon(3) s, of "[]"]
  have "finditer table_pattern ?blk = finditer table_pattern []" by simp
  moreover have "finditer table_pattern [] = []"
    using groups_of_Nil [OF keyword_patterns(3)] by (simp add: groups_of_def)
  moreover from finditer_append [OF patterns_end_with_semicolon(3) s]
  have "finditer table_pattern (pre @ ?blk) = finditer table_pattern pre" .
  moreover from extract_append_unterminated [OF s]
  have "extract_ddl_statements (pre @ ?blk) = extract_ddl_statements pre" .
  ultimately show ?thesis by simp
qed

text \<open>
  An extension statement followed by a table block that is cut off inside a column
  list; the block holds a pair of parentheses of its own.
\<close>

theorem unterminated_table_block_witness:
  "CHR '';'' \<notin> set (''t'' @ ''a numeric(10,2), b'')
   \<and> finditer table_pattern (''CREATE TABLE public.'' @ ''t'' @ '' ('' @ ''a numeric(10,2), b'') = []
   \<and> extract_ddl_statements
       (''CREATE EXTENSION IF NOT EXISTS e WITH SCHEMA public;''
        @ ''CREATE TABLE public.'' @ ''t'' @ '' ('' @ ''a numeric(10,2), b'')
     = Inr \<lparr>extensions = [''e''], types = [], tables = [], indexes = [], constraints = [],
             triggers = [], functions' = []\<rparr>"
proof -
  have b: "CHR '';'' \<notin> set (''t'' @ ''a numeric(10,2), b'')"
    by simp
  have "extract_ddl_statements ''CREATE EXTENSION IF NOT EXISTS e WITH SCHEMA public;''
     = Inr \<lparr>extensions = [''e''], types = [], tables = [], indexes = [], constraints = [],
             triggers = [], functions' = []\<rparr>"
    by code_simp
  with unterminated_table_block [OF b,
      of "''CREATE EXTENSION IF NOT EXISTS e WITH SCHEMA public;''"] b
  show ?thesis by simp
qed

text \<open>
  Claim C4, as stated: for every input, extracting the emitted text again gives
  collections of the same sizes.  It fails where a captured raw text holds a statement of
  another category: the definition of the trigger below holds an extension statement,
  which is emitted twice, once in the Extensions section and once inside the trigger, and
  found twice.
\<close>

theorem reextraction_counts_counterexample:
  "extract_ddl_statements
     ''CREATE TRIGGER t CREATE EXTENSION IF NOT EXISTS e WITH SCHEMA public;''
     = Inr \<lparr>extensions = [''e''], types = [], tables = [], indexes = [], constraints = [],
             triggers = [(''t'', ''CREATE EXTENSION IF NOT EXISTS e WITH SCHEMA public'')],
             functions' = []\<rparr>
   \<and> extract_ddl_statements (generate_consolidated_migration
        \<lparr>extensions = [''e''], types = [], tables = [], indexes = [], constraints = [],
         triggers = [(''t'', ''CREATE EXTENSION IF NOT EXISTS e WITH SCHEMA public'')],
         functions' = []\<rparr>)
     = Inr \<lparr>extensions = [''e'', ''e''], types = [], tables = [], indexes = [], constraints = [],
             triggers = [(''t'', ''CREATE EXTENSION IF NOT EXISTS e WITH SCHEMA public'')],
             functions' = []\<rparr>
   \<and> length [''e'', ''e''] \<noteq> length [''e'']"
  by code_simp

text \<open>
  Claim C4, amended: for every input on which the extractor returns, and in which no
  captured name or raw text contains the word \<open>CREATE\<close> or \<open>ALTER\<close>, extracting the
  emitted text again returns, with collections of the same sizes as the first extraction
  for extensions, enum types, tables, constraints, indexes and triggers, and with no
  function.
\<close>

theorem reextraction_counts:
  assumes "extract_ddl_statements content = Inr st" and "clean st"
  shows "\<exists>st'. extract_ddl_statements (generate_consolidated_migration st) = Inr st'
           \<and> length (extensions st') = length (extensions st)
           \<and> length (types st') = length (types st)
           \<and> length (tables st') = length (tables st)
           \<and> length (constraints st') = length (constraints st)
           \<and> length (indexes st') = length (indexes st)
           \<and> length (triggers st') = length (triggers st)
           \<and> functions' st' = []"
proof -
  let ?text = "generate_consolidated_migration st"
  from extracted_ok [OF assms] have ok: "ok_statements st" .
  from regenerated_indexes [OF ok] have ix: "finditer index_pattern ?text = []"
    by (simp add: groups_of_def)
  from regenerated_functions [OF ok] have fu: "finditer function_pattern ?text = []"
    by (simp add: groups_of_def)
  from assms(1) have tb: "tables st = map (\<lambda>m. (snd m ! 0, strip (snd m ! 1)))
      (filter (\<lambda>m. snd m ! 0 \<noteq> diesel_table) (finditer table_pattern content))"
    by (auto simp: extract_ddl_statements_eq split: if_splits)
  have keep: "snd m ! 0 \<noteq> diesel_table" if "m \<in> set (finditer table_pattern ?text)" for m
  proof -
    from that have "snd m \<in> set (groups_of table_pattern ?text)" by (simp add: groups_of_def)
    with regenerated_tables [OF ok] obtain t where t: "t \<in> set (tables st)"
      and m: "snd m ! 0 = fst t" by auto
    from t tb have "fst t \<noteq> diesel_table" by auto
    with m show ?thesis by simp
  qed
  then have "filter (\<lambda>m. snd m ! 0 \<noteq> diesel_table) (finditer table_pattern ?text)
      = finditer table_pattern ?text" by (simp add: filter_id_conv)
  moreover have "length (finditer table_pattern ?text) = length (tables st)"
    by (simp add: groups_of_length regenerated_tables [OF ok])
  moreover have "length (finditer extension_pattern ?text) = length (extensions st)"
    by (simp add: groups_of_length regenerated_extensions [OF ok])
  moreover have "length (finditer type_pattern ?text) = length (types st)"
    by (simp add: groups_of_length regenerated_types [OF ok])
  moreover have "length (finditer constraint_pattern ?text) = length (constraints st)"
    by (simp add: groups_of_length regenerated_constraints [OF ok])
  moreover have "length (finditer trigger_pattern ?text) = length (triggers st)"
    by (simp add: groups_of_length regenerated_triggers [OF ok])
  moreover from ok have "indexes st = []" by (simp add: ok_statements_def)
  ultimately show ?thesis
    by (simp add: extract_ddl_statements_eq ix fu)
qed

text \<open>An extension and a table: both are found again in the emitted text.\<close>

theorem reextraction_counts_witness:
  "extract_ddl_statements
     ''CREATE EXTENSION IF NOT EXISTS e WITH SCHEMA public;CREATE TABLE public.t (a int);''
     = Inr \<lparr>extensions = [''e''], types = [], tables = [(''t'', ''a int'')], indexes = [],
             constraints = [], triggers = [], functions' = []\<rparr>
   \<and> clean \<lparr>extensions = [''e''], types = [], tables = [(''t'', ''a int'')], indexes = [],
             constraints = [], triggers = [], functions' = []\<rparr>
   \<and> (\<exists>st'. extract_ddl_statements (generate_consolidated_migration
               \<lparr>extensions = [''e''], types = [], tables = [(''t'', ''a int'')], indexes = [],
                constraints = [], triggers = [], functions' = []\<rparr>) = Inr st'
           \<and> length (extensions st') = 1 \<and> length (types st') = 0 \<and> length (tables st') = 1
           \<and> length (constraints st') = 0 \<and> length (indexes st') = 0
           \<and> length (triggers st') = 0 \<and> functions' st' = [])"
proof -
  let ?st = "\<lparr>extensions = [''e''], types = [], tables = [(''t'', ''a int'')], indexes = [],
              constraints = [], triggers = [], functions' = []\<rparr>"
  have h: "extract_ddl_statements
     ''CREATE EXTENSION IF NOT EXISTS e WITH SCHEMA public;CREATE TABLE public.t (a int);''
     = Inr ?st"
    by code_simp
  have c: "clean ?st" by code_simp
  from reextraction_counts [OF h c] h c show ?thesis by simp
qed

end
